theory Spec2Isabelle
  imports Main "HOL-Library.Sublist"
begin

section \<open>Configuration (config.py)\<close>

text \<open>
  Parsed JSON, request bodies and Python dictionaries of the driver. An object keeps its
  keys in insertion order, as a Python \<^verbatim>\<open>dict\<close> does.
\<close>

datatype json =
    JNull
  | JBool bool
  | JNum int
  | JStr string
  | JArr "json list"
  | JObj "(string \<times> json) list"

definition PROJECT_NUMBER :: string where
  "PROJECT_NUMBER = ''your-project-number''"

definition LOCATION :: string where
  "LOCATION = ''us-central1''"

definition CORPUS_SETTINGS :: json where
  "CORPUS_SETTINGS = JObj
     [(''display_name'', JStr ''logo_similarity_corpus''),
      (''description'', JStr ''Corpus for analyzing logo similarities''),
      (''type'', JStr ''IMAGE''),
      (''search_capability_setting'',
         JObj [(''search_capabilities'', JObj [(''type'', JStr ''EMBEDDING_SEARCH'')])])]"

definition INDEX_SETTINGS :: json where
  "INDEX_SETTINGS = JObj
     [(''display_name'', JStr ''logo_similarity_index''),
      (''index_type'', JStr ''VISUAL_EMBEDDING'')]"

definition BATCH_SIZE :: nat where
  "BATCH_SIZE = 100"

definition MAX_RETRIES :: nat where
  "MAX_RETRIES = 3"

definition TIMEOUT :: nat where
  "TIMEOUT = 300"

definition SUPPORTED_FORMATS :: "string list" where
  "SUPPORTED_FORMATS = [''.jpg'', ''.jpeg'', ''.png'']"


definition SPREADSHEET_COLUMNS :: "string list" where
  "SPREADSHEET_COLUMNS = [''Query Image'', ''Similar Image'', ''Similarity Score'']"

section \<open>Effects, errors and the environment\<close>

text \<open>
  The script only sequences calls to the outside world. Each such call is an event of
  the trace, in program order; what the outside world answers is read from an
  environment, as a function of the trace up to and including the call.

  A call of \<^verbatim>\<open>requests.post\<close>/\<^verbatim>\<open>requests.get\<close> followed by
  \<^verbatim>\<open>raise_for_status()\<close> and \<^verbatim>\<open>json()\<close> either yields the parsed body, or raises
  a \<^verbatim>\<open>requests.exceptions.RequestException\<close> (connection failure, timeout, the
  \<^verbatim>\<open>HTTPError\<close> of \<^verbatim>\<open>raise_for_status\<close>), or raises something else. Which
  statuses make \<^verbatim>\<open>raise_for_status\<close> raise is the library's business; the script
  sees the exception only.
\<close>

datatype request_exception =
    ConnectionError
  | Timeout
  | HTTPError nat
  | OtherRequestException string

datatype reply =
    Json json
  | RaisesRequestException request_exception
  | RaisesOther string

datatype error =
    UnboundLocalError
  | RequestFailed request_exception
  | AccessTokenFailed
  | KeyError string
  | TypeError
  | AttributeError
  | IndexError
  | ValueError
  | Raised string

text \<open>
  \<open>RequestFailed e\<close> is \<^verbatim>\<open>Exception(f"Request failed after {MAX_RETRIES} retries: {e}")\<close>,
  \<open>AccessTokenFailed\<close> is \<^verbatim>\<open>Exception(f'Failed to get access token: {e}')\<close>, and
  \<open>Raised x\<close> is an exception of a library call that the script does not catch.
\<close>

datatype cell = Cell json | NaN

datatype event =
    LogInfo string
  | LogWarning string
  | LogError error
  | HttpPost string "(string \<times> string) list" "json option" nat
  | HttpGet string "(string \<times> string) list" nat
  | GcsUpload string string string
  | SheetsUpdate string string string "cell list list"

text \<open>
  \<open>HttpPost url headers body timeout\<close> and \<open>HttpGet url headers timeout\<close> are one attempt
  each; \<open>GcsUpload bucket source blob\<close> is \<^verbatim>\<open>blob.upload_from_filename(source)\<close>;
  \<open>SheetsUpdate spreadsheetId range valueInputOption values\<close> is the
  \<^verbatim>\<open>values().update(...).execute()\<close> call. \<open>LogError e\<close> is
  \<^verbatim>\<open>logger.error(f"An error occurred: {e}")\<close>. The progress bar (\<^verbatim>\<open>tqdm\<close>) only
  draws and is left out.
\<close>

record date =
  year :: nat
  month :: nat
  day :: nat

datatype gcloud_result =
    Stdout string
  | CalledProcessError
  | OtherFailure string

record env =
  http :: "event list \<Rightarrow> reply"
  gcs_upload :: "event list \<Rightarrow> string option"
  sheets_execute :: "event list \<Rightarrow> string option"
  now :: "event list \<Rightarrow> date"
  os_walk :: "string \<Rightarrow> (string \<times> string list \<times> string list) list"
  gcloud :: gcloud_result

text \<open>
  \<open>gcs_upload\<close> and \<open>sheets_execute\<close> answer \<open>None\<close> when the call returns and
  \<open>Some x\<close> when it raises \<open>x\<close>; \<open>now\<close> is the date of \<^verbatim>\<open>datetime.now()\<close>;
  \<open>os_walk d\<close> is the list of \<open>(root, dirs, files)\<close> that \<^verbatim>\<open>os.walk(d)\<close> yields;
  \<open>gcloud\<close> is what \<^verbatim>\<open>subprocess.run\<close> of \<^verbatim>\<open>gcloud auth print-access-token\<close>
  does: it returns the output, raises \<^verbatim>\<open>CalledProcessError\<close> (the command failed), or
  raises something else (\<^verbatim>\<open>FileNotFoundError\<close> when there is no such command).
\<close>

type_synonym 'a result = "(error + 'a) \<times> event list"

section \<open>String and path helpers of the Python runtime\<close>

text \<open>\<^verbatim>\<open>str(n)\<close> for a natural number, as the f-strings format it.\<close>

definition digit_char :: "nat \<Rightarrow> char" where
  "digit_char d = char_of (48 + d)"

fun str_nat :: "nat \<Rightarrow> string" where
  "str_nat n = (if n < 10 then [digit_char n] else str_nat (n div 10) @ [digit_char (n mod 10)])"

declare str_nat.simps [simp del]

text \<open>
  \<^verbatim>\<open>datetime.now().strftime('%Y%m%d')\<close> as the C library of Linux formats it: the
  year in decimal without padding (four digits from the year 1000 on), the month and the
  day on two digits, padded with zeros.
\<close>

definition zfill :: "nat \<Rightarrow> string \<Rightarrow> string" where
  "zfill w s = replicate (w - length s) (CHR ''0'') @ s"

definition strftime_Ymd :: "date \<Rightarrow> string" where
  "strftime_Ymd d = str_nat (year d) @ zfill 2 (str_nat (month d)) @ zfill 2 (str_nat (day d))"

text \<open>
  \<^verbatim>\<open>s.lower()\<close>, a character being a code point below 256: the letters A to Z and
  the capital letters 0xC0 to 0xDE of Latin-1 (0xD7, the multiplication sign, is not one)
  move up by 32, every other character stays.
\<close>

definition char_lower :: "char \<Rightarrow> char" where
  "char_lower c =
     (if (65 \<le> (of_char c :: nat) \<and> (of_char c :: nat) \<le> 90) \<or>
         (192 \<le> (of_char c :: nat) \<and> (of_char c :: nat) \<le> 222 \<and> (of_char c :: nat) \<noteq> 215)
      then char_of ((of_char c :: nat) + 32)
      else c)"

definition str_lower :: "string \<Rightarrow> string" where
  "str_lower s = map char_lower s"

text \<open>\<^verbatim>\<open>s.endswith(suffix)\<close> and \<^verbatim>\<open>s.endswith((suffix1, suffix2, ...))\<close>.\<close>

definition endswith :: "string \<Rightarrow> string \<Rightarrow> bool" where
  "endswith s suf = (length suf \<le> length s \<and> drop (length s - length suf) s = suf)"

definition endswith_any :: "string \<Rightarrow> string list \<Rightarrow> bool" where
  "endswith_any s sufs = list_ex (endswith s) sufs"

text \<open>\<^verbatim>\<open>s.split(sep)\<close> for a one-character separator: never an empty list.\<close>

fun split_sep :: "char \<Rightarrow> string \<Rightarrow> string list" where
  "split_sep sep [] = [[]]"
| "split_sep sep (c # cs) =
     (if c = sep then [] # split_sep sep cs
      else (case split_sep sep cs of
              [] \<Rightarrow> [[c]]
            | w # ws \<Rightarrow> (c # w) # ws))"

text \<open>\<^verbatim>\<open>xs[-1]\<close>: the last element, \<^verbatim>\<open>IndexError\<close> on an empty list.\<close>

definition last_item :: "'a list \<Rightarrow> error + 'a" where
  "last_item xs = (if xs = [] then Inl IndexError else Inr (last xs))"

text \<open>
  \<^verbatim>\<open>s.rfind(sep)\<close> (the highest index of \<open>sep\<close>, or -1) and
  \<^verbatim>\<open>os.path.basename(p)\<close>, which is \<^verbatim>\<open>p[p.rfind('/') + 1:]\<close>.
\<close>

definition rfind :: "char \<Rightarrow> string \<Rightarrow> int" where
  "rfind sep s =
     (case filter (\<lambda>i. s ! i = sep) (rev [0 ..< length s]) of
        [] \<Rightarrow> - 1
      | i # _ \<Rightarrow> int i)"

definition basename :: "string \<Rightarrow> string" where
  "basename p = drop (nat (rfind (CHR ''/'') p + 1)) p"

text \<open>\<^verbatim>\<open>os.path.join(a, b)\<close> of \<^verbatim>\<open>posixpath\<close>.\<close>

definition path_join :: "string \<Rightarrow> string \<Rightarrow> string" where
  "path_join a b =
     (if b \<noteq> [] \<and> hd b = CHR ''/'' then b
      else if a = [] \<or> last a = CHR ''/'' then a @ b
      else a @ ''/'' @ b)"

text \<open>
  \<^verbatim>\<open>d[key]\<close> on a parsed JSON value: \<^verbatim>\<open>KeyError\<close> when an object lacks the key,
  \<^verbatim>\<open>TypeError\<close> when the value is not an object.
\<close>

fun getitem :: "json \<Rightarrow> string \<Rightarrow> error + json" where
  "getitem (JObj kvs) k = (case map_of kvs k of None \<Rightarrow> Inl (KeyError k) | Some v \<Rightarrow> Inr v)"
| "getitem _ k = Inl TypeError"

section \<open>The API gateway (LogoSimilarityAnalyzer._make_request)\<close>

record analyzer =
  project_number :: string
  location :: string
  base_url :: string
  token :: string

definition request_headers :: "analyzer \<Rightarrow> (string \<times> string) list" where
  "request_headers self =
     [(''Authorization'', ''Bearer '' @ token self),
      (''Content-Type'', ''application/json; charset=utf-8'')]"

definition request_url :: "analyzer \<Rightarrow> string \<Rightarrow> string" where
  "request_url self endpoint = base_url self @ ''/'' @ endpoint"

text \<open>
  The request the \<^verbatim>\<open>try\<close> block sends: \<^verbatim>\<open>requests.post\<close> for \<^verbatim>\<open>"POST"\<close>,
  \<^verbatim>\<open>requests.get\<close> (no body) for \<^verbatim>\<open>"GET"\<close>, nothing for any other method.
\<close>

definition attempt_event :: "analyzer \<Rightarrow> string \<Rightarrow> string \<Rightarrow> json option \<Rightarrow> event option" where
  "attempt_event self method endpoint data =
     (if method = ''POST''
      then Some (HttpPost (request_url self endpoint) (request_headers self) data TIMEOUT)
      else if method = ''GET''
      then Some (HttpGet (request_url self endpoint) (request_headers self) TIMEOUT)
      else None)"

definition retry_warning :: "nat \<Rightarrow> event" where
  "retry_warning retry_count =
     LogWarning (''Request failed, retrying... ('' @ str_nat (retry_count + 1) @ ''/''
                  @ str_nat MAX_RETRIES @ '')'')"

text \<open>
  \<^verbatim>\<open>_make_request(self, method, endpoint, data=None, retry_count=0)\<close>. With a method
  that is neither \<^verbatim>\<open>"POST"\<close> nor \<^verbatim>\<open>"GET"\<close> no request is sent and
  \<^verbatim>\<open>response\<close> is read unassigned: \<^verbatim>\<open>UnboundLocalError\<close>, which the
  \<^verbatim>\<open>except RequestException\<close> clause does not catch.
\<close>

function make_request ::
  "env \<Rightarrow> analyzer \<Rightarrow> string \<Rightarrow> string \<Rightarrow> json option \<Rightarrow> nat \<Rightarrow> event list \<Rightarrow> json result"
where
  "make_request E self method endpoint data retry_count tr =
     (case attempt_event self method endpoint data of
        None \<Rightarrow> (Inl UnboundLocalError, tr)
      | Some req \<Rightarrow>
          (case http E (tr @ [req]) of
             Json j \<Rightarrow> (Inr j, tr @ [req])
           | RaisesRequestException e \<Rightarrow>
               (if retry_count < MAX_RETRIES
                then make_request E self method endpoint data (retry_count + 1)
                       (tr @ [req, retry_warning retry_count])
                else (Inl (RequestFailed e), tr @ [req]))
           | RaisesOther x \<Rightarrow> (Inl (Raised x), tr @ [req])))"
  by pat_completeness auto
termination
  by (relation "measure (\<lambda>(E, self, method, endpoint, data, retry_count, tr). MAX_RETRIES - retry_count)")
     auto

declare make_request.simps [simp del]

section \<open>The resource calls of LogoSimilarityAnalyzer\<close>

definition resource_prefix :: "analyzer \<Rightarrow> string" where
  "resource_prefix self = ''projects/'' @ project_number self @ ''/locations/'' @ location self"

definition create_corpus :: "env \<Rightarrow> analyzer \<Rightarrow> event list \<Rightarrow> json result" where
  "create_corpus E self tr =
     make_request E self ''POST'' (resource_prefix self @ ''/corpora'') (Some CORPUS_SETTINGS) 0 tr"

definition create_index :: "env \<Rightarrow> analyzer \<Rightarrow> string \<Rightarrow> event list \<Rightarrow> json result" where
  "create_index E self corpus_id tr =
     make_request E self ''POST'' (resource_prefix self @ ''/corpora/'' @ corpus_id @ ''/indexes'')
       (Some INDEX_SETTINGS) 0 tr"

definition create_index_endpoint ::
  "env \<Rightarrow> analyzer \<Rightarrow> string \<Rightarrow> string \<Rightarrow> event list \<Rightarrow> json result" where
  "create_index_endpoint E self display_name description tr =
     make_request E self ''POST'' (resource_prefix self @ ''/indexEndpoints'')
       (Some (JObj [(''display_name'', JStr display_name), (''description'', JStr description)])) 0 tr"

definition deploy_index ::
  "env \<Rightarrow> analyzer \<Rightarrow> string \<Rightarrow> string \<Rightarrow> string \<Rightarrow> event list \<Rightarrow> json result" where
  "deploy_index E self index_endpoint_id corpus_id index_id tr =
     make_request E self ''POST''
       (resource_prefix self @ ''/indexEndpoints/'' @ index_endpoint_id @ '':deployIndex'')
       (Some (JObj [(''deployedIndex'',
          JObj [(''index'', JStr (resource_prefix self @ ''/corpora/'' @ corpus_id @ ''/indexes/'' @ index_id))])]))
       0 tr"

definition asset_endpoint :: "analyzer \<Rightarrow> string \<Rightarrow> string" where
  "asset_endpoint self corpus_id = resource_prefix self @ ''/corpora/'' @ corpus_id @ ''/assets''"

definition asset_data :: "string \<Rightarrow> json" where
  "asset_data gcs_uri =
     JObj [(''asset'', JObj [(''display_name'', JStr (basename gcs_uri)), (''gcs_uri'', JStr gcs_uri)])]"

definition create_asset :: "env \<Rightarrow> analyzer \<Rightarrow> string \<Rightarrow> string \<Rightarrow> event list \<Rightarrow> json result" where
  "create_asset E self corpus_id gcs_uri tr =
     make_request E self ''POST'' (asset_endpoint self corpus_id) (Some (asset_data gcs_uri)) 0 tr"

section \<open>Object storage (utils/gcs.py)\<close>

text \<open>
  \<^verbatim>\<open>upload_to_gcs(bucket_name, source_file_path, destination_blob_name)\<close>: the client
  and blob objects are built locally, the upload is the one outside call.
\<close>

definition upload_to_gcs :: "env \<Rightarrow> string \<Rightarrow> string \<Rightarrow> string \<Rightarrow> event list \<Rightarrow> string result" where
  "upload_to_gcs E bucket_name source_file_path destination_blob_name tr =
     (case gcs_upload E (tr @ [GcsUpload bucket_name source_file_path destination_blob_name]) of
        Some x \<Rightarrow> (Inl (Raised x), tr @ [GcsUpload bucket_name source_file_path destination_blob_name])
      | None \<Rightarrow> (Inr (''gs://'' @ bucket_name @ ''/'' @ destination_blob_name),
                  tr @ [GcsUpload bucket_name source_file_path destination_blob_name]))"

section \<open>Image enumeration and batch processing (process_images)\<close>

text \<open>The two nested loops over \<^verbatim>\<open>os.walk(image_dir)\<close>, appending to \<^verbatim>\<open>image_files\<close>.\<close>

fun walk_files :: "string \<Rightarrow> string list \<Rightarrow> string list \<Rightarrow> string list" where
  "walk_files root [] image_files = image_files"
| "walk_files root (file # files) image_files =
     walk_files root files
       (if endswith_any (str_lower file) SUPPORTED_FORMATS
        then image_files @ [path_join root file]
        else image_files)"

fun walk_dirs :: "(string \<times> string list \<times> string list) list \<Rightarrow> string list \<Rightarrow> string list" where
  "walk_dirs [] image_files = image_files"
| "walk_dirs ((root, dirs, files) # rest) image_files = walk_dirs rest (walk_files root files image_files)"

definition enumerate_images :: "env \<Rightarrow> string \<Rightarrow> string list" where
  "enumerate_images E image_dir = walk_dirs (os_walk E image_dir) []"

text \<open>
  \<^verbatim>\<open>range(start, stop, step)\<close> for a step that is not negative (\<^verbatim>\<open>ValueError\<close> when it
  is zero), and the slice \<^verbatim>\<open>xs[i:j]\<close> for \<open>i \<le> j\<close>.
\<close>

function range_from :: "nat \<Rightarrow> nat \<Rightarrow> nat \<Rightarrow> nat list" where
  "range_from i stop step = (if step = 0 \<or> stop \<le> i then [] else i # range_from (i + step) stop step)"
  by pat_completeness auto
termination
  by (relation "measure (\<lambda>(i, stop, step). stop - i)") auto

declare range_from.simps [simp del]

definition py_range :: "nat \<Rightarrow> nat \<Rightarrow> nat \<Rightarrow> error + nat list" where
  "py_range start stop step = (if step = 0 then Inl ValueError else Inr (range_from start stop step))"

definition slice :: "'a list \<Rightarrow> nat \<Rightarrow> nat \<Rightarrow> 'a list" where
  "slice xs i j = take (j - i) (drop i xs)"

text \<open>The remote object path of one upload.\<close>

definition destination_blob :: "date \<Rightarrow> string \<Rightarrow> string" where
  "destination_blob today image_path = ''logos/'' @ strftime_Ymd today @ ''/'' @ basename image_path"

text \<open>The first inner loop of a batch: upload every file, collecting the URIs.\<close>

fun upload_batch :: "env \<Rightarrow> string \<Rightarrow> string list \<Rightarrow> string list \<Rightarrow> event list \<Rightarrow> string list result" where
  "upload_batch E bucket_name [] gcs_uris tr = (Inr gcs_uris, tr)"
| "upload_batch E bucket_name (image_path # batch) gcs_uris tr =
     (case upload_to_gcs E bucket_name image_path (destination_blob (now E tr) image_path) tr of
        (Inl e, tr1) \<Rightarrow> (Inl e, tr1)
      | (Inr gcs_uri, tr1) \<Rightarrow> upload_batch E bucket_name batch (gcs_uris @ [gcs_uri]) tr1)"

text \<open>The second inner loop: one asset per collected URI.\<close>

fun register_batch :: "env \<Rightarrow> analyzer \<Rightarrow> string \<Rightarrow> string list \<Rightarrow> event list \<Rightarrow> unit result" where
  "register_batch E self corpus_id [] tr = (Inr (), tr)"
| "register_batch E self corpus_id (gcs_uri # gcs_uris) tr =
     (case create_asset E self corpus_id gcs_uri tr of
        (Inl e, tr1) \<Rightarrow> (Inl e, tr1)
      | (Inr _, tr1) \<Rightarrow> register_batch E self corpus_id gcs_uris tr1)"

definition process_batch ::
  "env \<Rightarrow> analyzer \<Rightarrow> string \<Rightarrow> string \<Rightarrow> string list \<Rightarrow> event list \<Rightarrow> unit result" where
  "process_batch E self corpus_id bucket_name batch tr =
     (case upload_batch E bucket_name batch [] tr of
        (Inl e, tr1) \<Rightarrow> (Inl e, tr1)
      | (Inr gcs_uris, tr1) \<Rightarrow> register_batch E self corpus_id gcs_uris tr1)"

text \<open>The outer loop over the start indices of the batches.\<close>

fun batch_loop ::
  "env \<Rightarrow> analyzer \<Rightarrow> string \<Rightarrow> string \<Rightarrow> string list \<Rightarrow> nat list \<Rightarrow> event list \<Rightarrow> unit result" where
  "batch_loop E self corpus_id bucket_name image_files [] tr = (Inr (), tr)"
| "batch_loop E self corpus_id bucket_name image_files (i # indices) tr =
     (case process_batch E self corpus_id bucket_name (slice image_files i (i + BATCH_SIZE)) tr of
        (Inl e, tr1) \<Rightarrow> (Inl e, tr1)
      | (Inr _, tr1) \<Rightarrow> batch_loop E self corpus_id bucket_name image_files indices tr1)"

definition process_images ::
  "env \<Rightarrow> analyzer \<Rightarrow> string \<Rightarrow> string \<Rightarrow> string \<Rightarrow> event list \<Rightarrow> unit result" where
  "process_images E self image_dir corpus_id bucket_name tr =
     (case py_range 0 (length (enumerate_images E image_dir)) BATCH_SIZE of
        Inl e \<Rightarrow> (Inl e, tr @ [LogInfo ''Starting image processing...''])
      | Inr indices \<Rightarrow>
          batch_loop E self corpus_id bucket_name (enumerate_images E image_dir) indices
            (tr @ [LogInfo ''Starting image processing...'']))"

text \<open>The batches the outer loop slices off a list, for a batch size \<open>B\<close>.\<close>

definition batches :: "nat \<Rightarrow> 'a list \<Rightarrow> error + 'a list list" where
  "batches B xs =
     (case py_range 0 (length xs) B of
        Inl e \<Rightarrow> Inl e
      | Inr indices \<Rightarrow> Inr (map (\<lambda>i. slice xs i (i + B)) indices))"

text \<open>
  Processing a list of batches one after the other: a batch is processed to its end
  before the next one starts, and an error ends the loop.
\<close>

fun run_batches :: "('a list \<Rightarrow> event list \<Rightarrow> unit result) \<Rightarrow> 'a list list \<Rightarrow> event list \<Rightarrow> unit result" where
  "run_batches f [] tr = (Inr (), tr)"
| "run_batches f (b # bs) tr =
     (case f b tr of
        (Inl e, tr1) \<Rightarrow> (Inl e, tr1)
      | (Inr _, tr1) \<Rightarrow> run_batches f bs tr1)"

section \<open>Similarity search (search_similar_images)\<close>

definition search_endpoint :: "analyzer \<Rightarrow> string \<Rightarrow> string" where
  "search_endpoint self index_endpoint_id =
     resource_prefix self @ ''/indexEndpoints/'' @ index_endpoint_id @ '':findNeighbors''"

definition search_similar_images ::
  "env \<Rightarrow> analyzer \<Rightarrow> string \<Rightarrow> string \<Rightarrow> int \<Rightarrow> event list \<Rightarrow> json result" where
  "search_similar_images E self index_endpoint_id query_image_path max_results tr =
     (case upload_to_gcs E (project_number self @ ''-query-images'') query_image_path
             (''query/'' @ strftime_Ymd (now E tr) @ ''/'' @ basename query_image_path) tr of
        (Inl e, tr1) \<Rightarrow> (Inl e, tr1)
      | (Inr gcs_uri, tr1) \<Rightarrow>
          make_request E self ''POST'' (search_endpoint self index_endpoint_id)
            (Some (JObj [(''query_image'', JObj [(''gcs_uri'', JStr gcs_uri)]),
                         (''max_results'', JNum max_results)])) 0 tr1)"

section \<open>The result sink (utils/spreadsheet.py)\<close>







section \<open>Credentials (utils/auth.py)\<close>

text \<open>
  \<^verbatim>\<open>s.strip()\<close> removes the characters for which \<^verbatim>\<open>isspace()\<close> holds, at both
  ends; below 256 these are 0x09 to 0x0D, 0x1C to 0x20, 0x85 and 0xA0.
\<close>

definition is_space :: "char \<Rightarrow> bool" where
  "is_space c =
     (c \<in> set [CHR 0x09, CHR 0x0A, CHR 0x0B, CHR 0x0C, CHR 0x0D,
                CHR 0x1C, CHR 0x1D, CHR 0x1E, CHR 0x1F, CHR 0x20, CHR 0x85, CHR 0xA0])"

definition strip :: "string \<Rightarrow> string" where
  "strip s = rev (dropWhile is_space (rev (dropWhile is_space s)))"

definition get_access_token :: "env \<Rightarrow> error + string" where
  "get_access_token E =
     (case gcloud E of
        Stdout out \<Rightarrow> Inr (strip out)
      | CalledProcessError \<Rightarrow> Inl AccessTokenFailed
      | OtherFailure x \<Rightarrow> Inl (Raised x))"

section \<open>The workflow driver (main)\<close>

record args =
  image_dir :: string
  bucket :: string
  spreadsheet_id :: "string option"
  max_results :: int

text \<open>
  The expression \<^verbatim>\<open>response["response"]["name"].split("/")[-1]\<close> that main applies
  to the three creation responses. A name that is not a string has no
  \<^verbatim>\<open>split\<close>: \<^verbatim>\<open>AttributeError\<close>.
\<close>

definition extract_id :: "json \<Rightarrow> error + string" where
  "extract_id response =
     (case getitem response ''response'' of
        Inl e \<Rightarrow> Inl e
      | Inr r \<Rightarrow>
          (case getitem r ''name'' of
             Inl e \<Rightarrow> Inl e
           | Inr (JStr name) \<Rightarrow> last_item (split_sep (CHR ''/'') name)
           | Inr _ \<Rightarrow> Inl AttributeError))"

definition new_analyzer :: "string \<Rightarrow> analyzer" where
  "new_analyzer tok =
     \<lparr>project_number = PROJECT_NUMBER, location = LOCATION,
      base_url = ''https://warehouse-visionai.googleapis.com/v1'', token = tok\<rparr>"

text \<open>\<^verbatim>\<open>if args.spreadsheet_id:\<close> holds for a string that is given and not empty.\<close>

definition truthy :: "string option \<Rightarrow> bool" where
  "truthy s = (case s of None \<Rightarrow> False | Some v \<Rightarrow> v \<noteq> [])"

text \<open>The body of the \<^verbatim>\<open>try\<close> block of main, stage by stage.\<close>

definition stage_deploy ::
  "env \<Rightarrow> analyzer \<Rightarrow> args \<Rightarrow> string \<Rightarrow> string \<Rightarrow> string \<Rightarrow> event list \<Rightarrow> unit result" where
  "stage_deploy E analyzer a corpus_id index_id endpoint_id tr =
     (case deploy_index E analyzer endpoint_id corpus_id index_id (tr @ [LogInfo ''Deploying index...'']) of
        (Inl e, tr1) \<Rightarrow> (Inl e, tr1)
      | (Inr _, tr1) \<Rightarrow>
          (Inr (),
           (if truthy (spreadsheet_id a)
            then tr1 @ [LogInfo ''Saving results to spreadsheet...'']
            else tr1)
           @ [LogInfo ''Processing completed successfully!'']))"

definition stage_endpoint ::
  "env \<Rightarrow> analyzer \<Rightarrow> args \<Rightarrow> string \<Rightarrow> string \<Rightarrow> event list \<Rightarrow> unit result" where
  "stage_endpoint E analyzer a corpus_id index_id tr =
     (case create_index_endpoint E analyzer
             (''logo_similarity_endpoint_'' @ strftime_Ymd (now E (tr @ [LogInfo ''Creating index endpoint...''])))
             ''Endpoint for logo similarity search''
             (tr @ [LogInfo ''Creating index endpoint...'']) of
        (Inl e, tr1) \<Rightarrow> (Inl e, tr1)
      | (Inr endpoint_response, tr1) \<Rightarrow>
          (case extract_id endpoint_response of
             Inl e \<Rightarrow> (Inl e, tr1)
           | Inr endpoint_id \<Rightarrow> stage_deploy E analyzer a corpus_id index_id endpoint_id tr1))"

definition stage_index :: "env \<Rightarrow> analyzer \<Rightarrow> args \<Rightarrow> string \<Rightarrow> event list \<Rightarrow> unit result" where
  "stage_index E analyzer a corpus_id tr =
     (case create_index E analyzer corpus_id (tr @ [LogInfo ''Creating index...'']) of
        (Inl e, tr1) \<Rightarrow> (Inl e, tr1)
      | (Inr index_response, tr1) \<Rightarrow>
          (case extract_id index_response of
             Inl e \<Rightarrow> (Inl e, tr1)
           | Inr index_id \<Rightarrow> stage_endpoint E analyzer a corpus_id index_id tr1))"

definition stage_images :: "env \<Rightarrow> analyzer \<Rightarrow> args \<Rightarrow> string \<Rightarrow> event list \<Rightarrow> unit result" where
  "stage_images E analyzer a corpus_id tr =
     (case process_images E analyzer (image_dir a) corpus_id (bucket a) (tr @ [LogInfo ''Processing images...'']) of
        (Inl e, tr1) \<Rightarrow> (Inl e, tr1)
      | (Inr _, tr1) \<Rightarrow> stage_index E analyzer a corpus_id tr1)"

definition stage_corpus :: "env \<Rightarrow> analyzer \<Rightarrow> args \<Rightarrow> event list \<Rightarrow> unit result" where
  "stage_corpus E analyzer a tr =
     (case create_corpus E analyzer (tr @ [LogInfo ''Creating corpus...'']) of
        (Inl e, tr1) \<Rightarrow> (Inl e, tr1)
      | (Inr corpus_response, tr1) \<Rightarrow>
          (case extract_id corpus_response of
             Inl e \<Rightarrow> (Inl e, tr1)
           | Inr corpus_id \<Rightarrow> stage_images E analyzer a corpus_id tr1))"

definition main_try :: "env \<Rightarrow> args \<Rightarrow> event list \<Rightarrow> unit result" where
  "main_try E a tr =
     (case get_access_token E of
        Inl e \<Rightarrow> (Inl e, tr)
      | Inr tok \<Rightarrow> stage_corpus E (new_analyzer tok) a tr)"

text \<open>
  main: the \<^verbatim>\<open>except Exception\<close> clause logs the error and raises it again. The
  arguments are those that \<^verbatim>\<open>argparse\<close> has parsed.
\<close>

definition main :: "env \<Rightarrow> args \<Rightarrow> event list \<Rightarrow> unit result" where
  "main E a tr =
     (case main_try E a tr of
        (Inl e, tr1) \<Rightarrow> (Inl e, tr1 @ [LogError e])
      | (Inr u, tr1) \<Rightarrow> (Inr u, tr1))"

section \<open>Reading a trace\<close>

fun is_attempt :: "event \<Rightarrow> bool" where
  "is_attempt (HttpPost _ _ _ _) = True"
| "is_attempt (HttpGet _ _ _) = True"
| "is_attempt _ = False"

fun is_sheets_update :: "event \<Rightarrow> bool" where
  "is_sheets_update (SheetsUpdate _ _ _ _) = True"
| "is_sheets_update _ = False"

text \<open>The attempts that a call has added to the trace \<open>tr\<close> it started from.\<close>

definition attempts_since :: "event list \<Rightarrow> 'a result \<Rightarrow> event list" where
  "attempts_since tr res = filter is_attempt (drop (length tr) (snd res))"

text \<open>
  What \<open>k\<close> failed attempts leave in the trace, counted from \<open>retry_count\<close>: the request
  and the warning of each, with nothing in between.
\<close>

definition retry_events :: "event \<Rightarrow> nat \<Rightarrow> nat \<Rightarrow> event list" where
  "retry_events req retry_count k =
     concat (map (\<lambda>i. [req, retry_warning i]) [retry_count ..< retry_count + k])"

text \<open>The events and traces that the statements below name.\<close>

definition post_event :: "analyzer \<Rightarrow> string \<Rightarrow> json \<Rightarrow> event" where
  "post_event self endpoint data =
     HttpPost (request_url self endpoint) (request_headers self) (Some data) TIMEOUT"

definition upload_event :: "string \<Rightarrow> date \<Rightarrow> string \<Rightarrow> event" where
  "upload_event bucket_name today image_path =
     GcsUpload bucket_name image_path (destination_blob today image_path)"

definition uploaded_uri :: "string \<Rightarrow> date \<Rightarrow> string \<Rightarrow> string" where
  "uploaded_uri bucket_name today image_path =
     ''gs://'' @ bucket_name @ ''/'' @ destination_blob today image_path"

text \<open>
  The request that registers the object at \<open>gcs_uri\<close> as an asset of a corpus, written
  out, and the URI that a request carries in the field \<^verbatim>\<open>gcs_uri\<close> of its
  \<^verbatim>\<open>asset\<close>, if it has one.
\<close>

definition register_event :: "analyzer \<Rightarrow> string \<Rightarrow> string \<Rightarrow> event" where
  "register_event self corpus_id gcs_uri =
     post_event self
       (''projects/'' @ project_number self @ ''/locations/'' @ location self
          @ ''/corpora/'' @ corpus_id @ ''/assets'')
       (JObj [(''asset'', JObj [(''display_name'', JStr (basename gcs_uri)), (''gcs_uri'', JStr gcs_uri)])])"

definition registered_uri :: "event \<Rightarrow> string option" where
  "registered_uri ev =
     (case ev of
        HttpPost url headers (Some body) timeout \<Rightarrow>
          (case getitem body ''asset'' of
             Inr asset \<Rightarrow>
               (case getitem asset ''gcs_uri'' of
                  Inr (JStr u) \<Rightarrow> Some u
                | _ \<Rightarrow> None)
           | Inl e \<Rightarrow> None)
      | _ \<Rightarrow> None)"

text \<open>
  The URI that \<^verbatim>\<open>upload_to_gcs\<close> returns for an upload, and what the registration
  of one URI leaves in the trace when \<open>k\<close> of its attempts fail.
\<close>

fun upload_uri :: "event \<Rightarrow> string" where
  "upload_uri (GcsUpload bucket_name source_file_path destination_blob_name) =
     ''gs://'' @ bucket_name @ ''/'' @ destination_blob_name"
| "upload_uri _ = []"

definition registration_events :: "analyzer \<Rightarrow> string \<Rightarrow> string \<Rightarrow> nat \<Rightarrow> event list" where
  "registration_events self corpus_id gcs_uri k =
     retry_events (register_event self corpus_id gcs_uri) 0 k @ [register_event self corpus_id gcs_uri]"

definition batch_events :: "analyzer \<Rightarrow> string \<Rightarrow> string \<Rightarrow> date \<Rightarrow> string list \<Rightarrow> event list" where
  "batch_events self corpus_id bucket_name today batch =
     map (upload_event bucket_name today) batch
     @ map (\<lambda>image_path. register_event self corpus_id (uploaded_uri bucket_name today image_path)) batch"

definition creation_response :: "string \<Rightarrow> json" where
  "creation_response name = JObj [(''response'', JObj [(''name'', JStr name)])]"

definition last_segment :: "string \<Rightarrow> string" where
  "last_segment path = last (split_sep (CHR ''/'') path)"

definition corpus_request :: "analyzer \<Rightarrow> event" where
  "corpus_request self = post_event self (resource_prefix self @ ''/corpora'') CORPUS_SETTINGS"

definition index_request :: "analyzer \<Rightarrow> string \<Rightarrow> event" where
  "index_request self corpus_id =
     post_event self (resource_prefix self @ ''/corpora/'' @ corpus_id @ ''/indexes'') INDEX_SETTINGS"

definition endpoint_request :: "analyzer \<Rightarrow> date \<Rightarrow> event" where
  "endpoint_request self today =
     post_event self (resource_prefix self @ ''/indexEndpoints'')
       (JObj [(''display_name'', JStr (''logo_similarity_endpoint_'' @ strftime_Ymd today)),
              (''description'', JStr ''Endpoint for logo similarity search'')])"

definition deploy_request :: "analyzer \<Rightarrow> string \<Rightarrow> string \<Rightarrow> string \<Rightarrow> event" where
  "deploy_request self index_endpoint_id corpus_id index_id =
     post_event self (resource_prefix self @ ''/indexEndpoints/'' @ index_endpoint_id @ '':deployIndex'')
       (JObj [(''deployedIndex'',
          JObj [(''index'', JStr (resource_prefix self @ ''/corpora/'' @ corpus_id @ ''/indexes/'' @ index_id))])])"

definition workflow_trace ::
  "analyzer \<Rightarrow> args \<Rightarrow> date \<Rightarrow> string \<Rightarrow> string \<Rightarrow> string \<Rightarrow> string list list \<Rightarrow> event list" where
  "workflow_trace self a today corpus_id index_id endpoint_id bs =
     [LogInfo ''Creating corpus...'', corpus_request self,
      LogInfo ''Processing images...'', LogInfo ''Starting image processing...'']
     @ concat (map (batch_events self corpus_id (bucket a) today) bs)
     @ [LogInfo ''Creating index...'', index_request self corpus_id,
        LogInfo ''Creating index endpoint...'', endpoint_request self today,
        LogInfo ''Deploying index...'', deploy_request self endpoint_id corpus_id index_id]
     @ (if truthy (spreadsheet_id a) then [LogInfo ''Saving results to spreadsheet...''] else [])
     @ [LogInfo ''Processing completed successfully!'']"

text \<open>
  Comparing without regard to letter case, in the words of the specification and apart
  from \<^verbatim>\<open>lower()\<close>: a table pairs every capital letter below 256 with its small
  letter, and two strings are the same when they agree character by character once the
  capital letters are replaced through the table.
\<close>

definition capital_letters :: string where
  "capital_letters =
     ''ABCDEFGHIJKLMNOPQRSTUVWXYZ'' @ map char_of ([192 ..< 215] @ [216 ..< 223] :: nat list)"

definition small_letters :: string where
  "small_letters =
     ''abcdefghijklmnopqrstuvwxyz'' @ map char_of ([224 ..< 247] @ [248 ..< 255] :: nat list)"

definition fold_case :: "char \<Rightarrow> char" where
  "fold_case c = (case map_of (zip capital_letters small_letters) c of None \<Rightarrow> c | Some l \<Rightarrow> l)"

definition same_ignoring_case :: "string \<Rightarrow> string \<Rightarrow> bool" where
  "same_ignoring_case a b = (map fold_case a = map fold_case b)"

text \<open>The number that a string of decimal digits writes.\<close>

definition decimal_value :: "string \<Rightarrow> nat" where
  "decimal_value s = foldl (\<lambda>acc c. 10 * acc + ((of_char c :: nat) - 48)) 0 s"

section \<open>Concrete scenarios\<close>

text \<open>
  An environment whose HTTP replies are given, with a fixed date, uploads and sheet
  updates that return, a given directory listing and a token.
\<close>

definition scenario_env ::
  "(event list \<Rightarrow> reply) \<Rightarrow> (string \<times> string list \<times> string list) list \<Rightarrow> env" where
  "scenario_env replies listing =
     \<lparr>http = replies,
      gcs_upload = (\<lambda>tr. None),
      sheets_execute = (\<lambda>tr. None),
      now = (\<lambda>tr. \<lparr>year = 2024, month = 3, day = 7\<rparr>),
      os_walk = (\<lambda>d. listing),
      gcloud = Stdout ''token''\<rparr>"


text \<open>A service that never answers in time.\<close>

definition down :: "event list \<Rightarrow> reply" where
  "down tr = RaisesRequestException Timeout"

text \<open>A service that answers every request with the same resource name.\<close>

definition named_replies :: "event list \<Rightarrow> reply" where
  "named_replies tr = Json (creation_response ''projects/p/locations/us-central1/foo/bar123'')"

text \<open>A directory with two images and a text file, and a command line with a spreadsheet.\<close>

definition logo_listing :: "(string \<times> string list \<times> string list) list" where
  "logo_listing = [(''logos'', [''sub''], [''a.png'', ''notes.txt'']), (''logos/sub'', [], [''B.JPG''])]"

definition logo_args :: args where
  "logo_args = \<lparr>image_dir = ''logos'', bucket = ''my-bucket'',
                 spreadsheet_id = Some ''sheet-1'', max_results = 10\<rparr>"

text \<open>A service that fails the first attempt it sees and answers every other one.\<close>

definition hiccup :: "event list \<Rightarrow> reply" where
  "hiccup tr =
     (if length (filter is_attempt tr) = 1 then RaisesRequestException ConnectionError
      else Json (JObj []))"


section \<open>Properties of the API gateway\<close>

lemma retry_events_0 [simp]: "retry_events req rc 0 = []"
  by (simp add: retry_events_def)

lemma retry_events_Suc:
  "retry_events req rc (Suc k) = retry_events req rc k @ [req, retry_warning (rc + k)]"
  by (simp add: retry_events_def)

lemma retry_events_Suc_front:
  "retry_events req rc (Suc k) = [req, retry_warning rc] @ retry_events req (rc + 1) k"
  by (simp add: retry_events_def upt_rec[of rc])

lemma attempt_event_is_attempt:
  "attempt_event self method endpoint data = Some req \<Longrightarrow> is_attempt req"
  by (auto simp: attempt_event_def split: if_splits)

lemma filter_retry_events:
  "is_attempt req \<Longrightarrow> filter is_attempt (retry_events req rc k) = replicate k req"
  by (induction k) (simp_all add: retry_events_Suc retry_warning_def replicate_append_same)

lemma attempts_since_append [simp]:
  "attempts_since tr (r, tr @ evs) = filter is_attempt evs"
  by (simp add: attempts_since_def)


text \<open>Every call leaves the starting trace, some failed attempts and one last attempt.\<close>

lemma make_request_shape:
  assumes req: "attempt_event self m ep data = Some req"
  shows "\<exists>k. rc + k \<le> max rc MAX_RETRIES \<and>
             snd (make_request E self m ep data rc tr) = tr @ retry_events req rc k @ [req]"
  using req
proof (induction E self m ep data rc tr rule: make_request.induct)
  case (1 E self m ep data rc tr)
  show ?case
  proof (cases "http E (tr @ [req])")
    case (Json j)
    then have "snd (make_request E self m ep data rc tr) = tr @ retry_events req rc 0 @ [req]"
      using 1(2) by (subst make_request.simps) simp
    then show ?thesis by (intro exI[of _ 0]) simp
  next
    case (RaisesRequestException e)
    show ?thesis
    proof (cases "rc < MAX_RETRIES")
      case True
      from 1(1)[OF 1(2) RaisesRequestException True 1(2)]
      obtain k where k: "rc + 1 + k \<le> max (rc + 1) MAX_RETRIES"
        "snd (make_request E self m ep data (rc + 1) (tr @ [req, retry_warning rc]))
         = (tr @ [req, retry_warning rc]) @ retry_events req (rc + 1) k @ [req]"
        by blast
      have "snd (make_request E self m ep data rc tr) = tr @ retry_events req rc (Suc k) @ [req]"
        using k(2) 1(2) RaisesRequestException True
        by (subst make_request.simps) (simp add: retry_events_Suc_front)
      moreover have "rc + Suc k \<le> max rc MAX_RETRIES" using k(1) True by simp
      ultimately show ?thesis by blast
    next
      case False
      then have "snd (make_request E self m ep data rc tr) = tr @ retry_events req rc 0 @ [req]"
        using 1(2) RaisesRequestException by (subst make_request.simps) simp
      then show ?thesis by (intro exI[of _ 0]) simp
    qed
  next
    case (RaisesOther x)
    then have "snd (make_request E self m ep data rc tr) = tr @ retry_events req rc 0 @ [req]"
      using 1(2) by (subst make_request.simps) simp
    then show ?thesis by (intro exI[of _ 0]) simp
  qed
qed

lemma make_request_no_method:
  "attempt_event self method endpoint data = None \<Longrightarrow>
   make_request E self method endpoint data rc tr = (Inl UnboundLocalError, tr)"
  by (subst make_request.simps) simp



text \<open>
  Claim C9. With a method other than \<^verbatim>\<open>"POST"\<close> and \<^verbatim>\<open>"GET"\<close> the request
  function sends nothing and fails with the unbound-variable error for \<^verbatim>\<open>response\<close>,
  whatever the retry counter: no attempt, no retry, not the terminal error of the
  retry path.
\<close>

theorem make_request_unbound_response:
  "method \<noteq> ''POST'' \<and> method \<noteq> ''GET'' \<Longrightarrow>
     make_request E self method endpoint data retry_count tr = (Inl UnboundLocalError, tr)"
  by (rule make_request_no_method) (simp add: attempt_event_def)

theorem make_request_unbound_response_witness:
  "make_request (scenario_env down []) (new_analyzer ''token'') ''PUT'' ''corpora'' None 0 []
     = (Inl UnboundLocalError, [])"
  using make_request_unbound_response[of "''PUT''"] by simp

text \<open>
  Claim C10. The retry recursion of the request function terminates (the function is
  total: its termination is proved with the measure \<open>MAX_RETRIES - retry_count\<close>).
  A call entered with counter \<open>retry_count\<close> recurses \<open>k\<close> times, each time with the
  counter one higher, as the warnings in the trace record, and only while the counter is
  below \<open>MAX_RETRIES\<close>. A call that starts at 0, as every call of the driver does,
  makes at most \<open>MAX_RETRIES + 1\<close> attempts.
\<close>

theorem make_request_bounded:
  "(\<exists>k. retry_count + k \<le> max retry_count MAX_RETRIES \<and>
        snd (make_request E self method endpoint data retry_count tr) =
          tr @ (case attempt_event self method endpoint data of
                  None \<Rightarrow> []
                | Some req \<Rightarrow> retry_events req retry_count k @ [req]))
   \<and> length (attempts_since tr (make_request E self method endpoint data 0 tr)) \<le> MAX_RETRIES + 1"
proof (cases "attempt_event self method endpoint data")
  case None
  then show ?thesis by (auto simp: make_request_no_method attempts_since_def intro: exI[of _ 0])
next
  case (Some req)
  have shape: "\<exists>k. rc + k \<le> max rc MAX_RETRIES \<and>
      snd (make_request E self method endpoint data rc tr) = tr @ retry_events req rc k @ [req]" for rc
    by (rule make_request_shape[OF Some])
  from shape[of 0] obtain k where k: "k \<le> MAX_RETRIES"
    "snd (make_request E self method endpoint data 0 tr) = tr @ retry_events req 0 k @ [req]"
    by auto
  have "attempts_since tr (make_request E self method endpoint data 0 tr) = replicate (k + 1) req"
    using k(2) attempt_event_is_attempt[OF Some]
    by (simp add: attempts_since_def filter_retry_events replicate_append_same)
  then have "length (attempts_since tr (make_request E self method endpoint data 0 tr)) \<le> MAX_RETRIES + 1"
    using k(1) by simp
  then show ?thesis using shape[of retry_count] Some by simp
qed

section \<open>Batches in which every outside call returns\<close>

lemma attempt_event_POST [simp]:
  "attempt_event self ''POST'' endpoint (Some data) = Some (post_event self endpoint data)"
  by (simp add: attempt_event_def post_event_def)

lemma create_asset_request:
  "attempt_event self ''POST'' (asset_endpoint self corpus_id) (Some (asset_data u))
     = Some (register_event self corpus_id u)"
  by (simp add: register_event_def asset_endpoint_def asset_data_def resource_prefix_def)

lemma make_request_first_ok:
  assumes "attempt_event self m ep data = Some req" "http E (tr @ [req]) = Json j"
  shows "make_request E self m ep data rc tr = (Inr j, tr @ [req])"
  using assms by (subst make_request.simps) simp

lemma upload_batch_ok:
  assumes "\<forall>h. gcs_upload E h = None" "\<forall>h. now E h = d"
  shows "upload_batch E bucket_name batch gcs_uris tr =
           (Inr (gcs_uris @ map (uploaded_uri bucket_name d) batch),
            tr @ map (upload_event bucket_name d) batch)"
  using assms
  by (induction batch arbitrary: gcs_uris tr)
     (simp_all add: upload_to_gcs_def uploaded_uri_def upload_event_def)

lemma register_batch_ok:
  assumes "\<forall>h. \<exists>j. http E h = Json j"
  shows "register_batch E self corpus_id gcs_uris tr =
           (Inr (), tr @ map (register_event self corpus_id) gcs_uris)"
proof (induction gcs_uris arbitrary: tr)
  case Nil
  then show ?case by simp
next
  case (Cons u us)
  from assms obtain j where "http E (tr @ [register_event self corpus_id u]) = Json j" by blast
  then have "create_asset E self corpus_id u tr = (Inr j, tr @ [register_event self corpus_id u])"
    unfolding create_asset_def
    by (intro make_request_first_ok create_asset_request)
  then show ?case using Cons by simp
qed

lemma process_batch_ok:
  assumes "\<forall>h. \<exists>j. http E h = Json j" "\<forall>h. gcs_upload E h = None" "\<forall>h. now E h = d"
  shows "process_batch E self corpus_id bucket_name batch tr =
           (Inr (), tr @ batch_events self corpus_id bucket_name d batch)"
  using assms
  by (simp add: process_batch_def upload_batch_ok register_batch_ok batch_events_def comp_def)

lemma batch_loop_ok:
  assumes "\<forall>h. \<exists>j. http E h = Json j" "\<forall>h. gcs_upload E h = None" "\<forall>h. now E h = d"
  shows "batch_loop E self corpus_id bucket_name image_files indices tr =
           (Inr (), tr @ concat (map (\<lambda>i. batch_events self corpus_id bucket_name d
                                        (slice image_files i (i + BATCH_SIZE))) indices))"
  using assms
  by (induction indices arbitrary: tr) (simp_all add: process_batch_ok)

lemma batches_pos: "0 < B \<Longrightarrow> batches B xs = Inr (map (\<lambda>i. slice xs i (i + B)) (range_from 0 (length xs) B))"
  by (simp add: batches_def py_range_def)

lemma process_images_ok:
  assumes "\<forall>h. \<exists>j. http E h = Json j" "\<forall>h. gcs_upload E h = None" "\<forall>h. now E h = d"
  shows "\<exists>bs. batches BATCH_SIZE (enumerate_images E dir) = Inr bs \<and>
           process_images E self dir corpus_id bucket_name tr =
           (Inr (), tr @ [LogInfo ''Starting image processing...'']
                    @ concat (map (batch_events self corpus_id bucket_name d) bs))"
proof -
  have pos: "0 < BATCH_SIZE" by (simp add: BATCH_SIZE_def)
  show ?thesis
    using assms pos
    by (simp add: batches_pos process_images_def py_range_def batch_loop_ok comp_def)
qed

section \<open>Properties of the identifier extraction\<close>

lemma split_sep_nonempty [simp]: "split_sep c s \<noteq> []"
  by (induction s) (auto split: list.splits)

lemma split_sep_no_sep: "c \<notin> set s \<Longrightarrow> split_sep c s = [s]"
  by (induction s) auto

lemma split_sep_single: "c \<in> set s \<Longrightarrow> \<exists>w v ws. split_sep c s = w # v # ws"
proof (induction s)
  case Nil
  then show ?case by simp
next
  case (Cons x xs)
  show ?case
  proof (cases "x = c")
    case True
    then show ?thesis by (cases "split_sep c xs") auto
  next
    case False
    with Cons obtain w v ws where "split_sep c xs = w # v # ws" by auto
    then show ?thesis using False by simp
  qed
qed

lemma last_split_sep_Cons:
  "last (split_sep c (x # xs)) = (if x = c \<or> c \<in> set xs then last (split_sep c xs) else x # xs)"
proof (cases "x = c")
  case True
  then show ?thesis by simp
next
  case False
  show ?thesis
  proof (cases "c \<in> set xs")
    case True
    then obtain w v ws where "split_sep c xs = w # v # ws" using split_sep_single by blast
    then show ?thesis using False True by simp
  next
    case n: False
    then show ?thesis using False by (simp add: split_sep_no_sep)
  qed
qed

lemma last_split_sep_char:
  "c \<notin> set (last (split_sep c s)) \<and>
   (s = last (split_sep c s) \<or> (\<exists>pre. s = pre @ c # last (split_sep c s)))"
proof (induction s)
  case Nil
  then show ?case by simp
next
  case (Cons x xs)
  show ?case
  proof (cases "x = c \<or> c \<in> set xs")
    case False
    then show ?thesis by (auto simp add: last_split_sep_Cons simp del: split_sep.simps)
  next
    case True
    then have eq: "last (split_sep c (x # xs)) = last (split_sep c xs)"
      by (simp add: last_split_sep_Cons del: split_sep.simps)
    from Cons have notin: "c \<notin> set (last (split_sep c xs))" by simp
    from Cons consider "xs = last (split_sep c xs)" | pre where "xs = pre @ c # last (split_sep c xs)"
      by blast
    then have "\<exists>pre. x # xs = pre @ c # last (split_sep c xs)"
    proof cases
      case 1
      with notin True have "x = c" by auto
      with 1 have "x # xs = [] @ c # last (split_sep c xs)" by simp
      then show ?thesis by blast
    next
      case 2
      then have "x # xs = (x # pre) @ c # last (split_sep c xs)" by simp
      then show ?thesis by blast
    qed
    then show ?thesis using notin eq by simp
  qed
qed

lemma extract_id_creation_response:
  "extract_id (creation_response name) = Inr (last_segment name)"
  by (simp add: extract_id_def creation_response_def last_item_def last_segment_def)

section \<open>The run of main in which every outside call returns\<close>

lemma make_request_post_ok:
  assumes "\<forall>h. http E h = Json (f (last h))"
  shows "make_request E self ''POST'' ep (Some data) rc tr
           = (Inr (f (post_event self ep data)), tr @ [post_event self ep data])"
  using assms by (intro make_request_first_ok) simp_all

lemma main_ok:
  assumes tok: "gcloud E = Stdout out"
    and http: "\<forall>h. http E h = Json (creation_response (names (last h)))"
    and gcs: "\<forall>h. gcs_upload E h = None"
    and date: "\<forall>h. now E h = d"
    and cid: "cid = last_segment (names (corpus_request (new_analyzer (strip out))))"
    and iid: "iid = last_segment (names (index_request (new_analyzer (strip out)) cid))"
    and eid: "eid = last_segment (names (endpoint_request (new_analyzer (strip out)) d))"
  shows "\<exists>bs. batches BATCH_SIZE (enumerate_images E (image_dir a)) = Inr bs \<and>
           main E a tr = (Inr (), tr @ workflow_trace (new_analyzer (strip out)) a d cid iid eid bs)"
proof -
  let ?an = "new_analyzer (strip out)"
  have ex: "\<forall>h. \<exists>j. http E h = Json j" using http by simp
  from process_images_ok[OF ex gcs date, of "image_dir a" ?an "''x''" "bucket a" "[]"]
  obtain bs where bs: "batches BATCH_SIZE (enumerate_images E (image_dir a)) = Inr bs"
    by blast
  have pi: "process_images E ?an (image_dir a) c (bucket a) t =
           (Inr (), t @ [LogInfo ''Starting image processing...'']
                    @ concat (map (batch_events ?an c (bucket a) d) bs))" for c t
    using process_images_ok[OF ex gcs date, of "image_dir a" ?an c "bucket a" t] bs by auto
  have mr: "\<And>ep data rc tr. make_request E ?an ''POST'' ep (Some data) rc tr
           = (Inr (creation_response (names (post_event ?an ep data))), tr @ [post_event ?an ep data])"
    using make_request_post_ok[OF http] by simp
  have deploy: "stage_deploy E ?an a cid iid eid t =
      (Inr (), t @ [LogInfo ''Deploying index...'', deploy_request ?an eid cid iid]
          @ (if truthy (spreadsheet_id a) then [LogInfo ''Saving results to spreadsheet...''] else [])
          @ [LogInfo ''Processing completed successfully!''])" for t
    by (simp add: stage_deploy_def deploy_index_def mr deploy_request_def)
  have endp: "stage_endpoint E ?an a cid iid t =
      stage_deploy E ?an a cid iid eid (t @ [LogInfo ''Creating index endpoint...'', endpoint_request ?an d])" for t
    using date
    by (simp add: stage_endpoint_def create_index_endpoint_def mr endpoint_request_def
          extract_id_creation_response eid)
  have idx: "stage_index E ?an a cid t =
      stage_endpoint E ?an a cid iid (t @ [LogInfo ''Creating index...'', index_request ?an cid])" for t
    by (simp add: stage_index_def create_index_def mr index_request_def extract_id_creation_response iid)
  have img: "stage_images E ?an a cid t =
      stage_index E ?an a cid (t @ [LogInfo ''Processing images...'', LogInfo ''Starting image processing...'']
                    @ concat (map (batch_events ?an cid (bucket a) d) bs))" for t
    by (simp add: stage_images_def pi)
  have corp: "stage_corpus E ?an a t =
      stage_images E ?an a cid (t @ [LogInfo ''Creating corpus...'', corpus_request ?an])" for t
    by (simp add: stage_corpus_def create_corpus_def mr corpus_request_def extract_id_creation_response cid)
  have "main_try E a tr = (Inr (), tr @ workflow_trace ?an a d cid iid eid bs)"
    by (simp add: main_try_def get_access_token_def tok corp img idx endp deploy workflow_trace_def)
  then show ?thesis using bs by (simp add: main_def)
qed

section \<open>Properties of the workflow driver\<close>

text \<open>
  Claim C6. For a creation response \<^verbatim>\<open>{"response": {"name": path}}\<close> the extracted
  identifier is the final slash-separated segment of \<open>path\<close>: it holds no slash, and
  \<open>path\<close> is either that segment or something, a slash and that segment; for
  \<^verbatim>\<open>.../foo/bar123\<close> it is \<^verbatim>\<open>bar123\<close>. The driver applies the extraction to the
  corpus, index and index-endpoint creation responses and uses nothing else as an
  identifier: in a run on one date where the token is obtained, every request is answered
  by a creation response (with any name, depending on the request), and every upload
  returns, the asset and index requests name the corpus by the segment extracted from the corpus
  response, and the deploy request names the endpoint, the corpus and the index by the
  segments extracted from their responses.
\<close>

theorem identifiers_extracted_from_responses:
  assumes "gcloud E = Stdout out"
    and "\<forall>h. http E h = Json (creation_response (names (last h)))"
    and "\<forall>h. gcs_upload E h = None"
    and "\<forall>h. now E h = d"
  shows "extract_id (creation_response path) = Inr (last_segment path)
       \<and> CHR ''/'' \<notin> set (last_segment path)
       \<and> (path = last_segment path \<or> (\<exists>pre. path = pre @ ''/'' @ last_segment path))
       \<and> extract_id (creation_response ''.../foo/bar123'') = Inr ''bar123''
       \<and> (\<exists>bs. batches BATCH_SIZE (enumerate_images E (image_dir a)) = Inr bs \<and>
             main E a tr =
               (Inr (),
                tr @ workflow_trace (new_analyzer (strip out)) a d
                       (last_segment (names (corpus_request (new_analyzer (strip out)))))
                       (last_segment (names (index_request (new_analyzer (strip out))
                          (last_segment (names (corpus_request (new_analyzer (strip out))))))))
                       (last_segment (names (endpoint_request (new_analyzer (strip out)) d)))
                       bs))"
proof -
  have seg: "CHR ''/'' \<notin> set (last_segment path)
       \<and> (path = last_segment path \<or> (\<exists>pre. path = pre @ ''/'' @ last_segment path))"
    using last_split_sep_char[of "CHR ''/''" path] by (simp add: last_segment_def)
  have ex: "extract_id (creation_response ''.../foo/bar123'') = Inr ''bar123''"
    by (simp add: extract_id_creation_response last_segment_def)
  show ?thesis
    using seg ex main_ok[OF assms refl refl refl, of a tr]
    by (simp add: extract_id_creation_response)
qed



lemma logo_images:
  "enumerate_images (scenario_env named_replies logo_listing) ''logos'' = [''logos/a.png'', ''logos/sub/B.JPG'']"
  by code_simp

lemma logo_batches:
  "batches BATCH_SIZE [''logos/a.png'', ''logos/sub/B.JPG''] = Inr [[''logos/a.png'', ''logos/sub/B.JPG'']]"
  by (simp add: batches_def py_range_def BATCH_SIZE_def range_from.simps slice_def)

theorem identifiers_extracted_from_responses_witness:
  "extract_id (creation_response ''a/b/c'') = Inr ''c''
   \<and> main (scenario_env named_replies logo_listing) logo_args [] =
       (Inr (),
        workflow_trace (new_analyzer ''token'') logo_args \<lparr>year = 2024, month = 3, day = 7\<rparr>
          ''bar123'' ''bar123'' ''bar123'' [[''logos/a.png'', ''logos/sub/B.JPG'']])"
proof -
  let ?E = "scenario_env named_replies logo_listing"
  let ?names = "\<lambda>ev :: event. ''projects/p/locations/us-central1/foo/bar123''"
  let ?d = "\<lparr>year = 2024, month = 3, day = 7\<rparr>"
  have h1: "gcloud ?E = Stdout ''token''" by (simp add: scenario_env_def)
  have h2: "\<forall>h. http ?E h = Json (creation_response (?names (last h)))"
    by (simp add: scenario_env_def named_replies_def)
  have h3: "\<forall>h. gcs_upload ?E h = None" by (simp add: scenario_env_def)
  have h4: "\<forall>h. now ?E h = ?d" by (simp add: scenario_env_def)
  have st: "strip ''token'' = ''token''" by (simp add: strip_def is_space_def)
  have seg: "last_segment ''projects/p/locations/us-central1/foo/bar123'' = ''bar123''"
    by (simp add: last_segment_def)
  have seg2: "last_segment ''a/b/c'' = ''c''" by (simp add: last_segment_def)
  have dir: "image_dir logo_args = ''logos''" by (simp add: logo_args_def)
  from identifiers_extracted_from_responses[OF h1 h2 h3 h4, of "''a/b/c''" logo_args "[]"]
  show ?thesis
    unfolding st seg seg2 dir logo_images logo_batches by auto
qed

text \<open>
  Claim C1 says that with a spreadsheet identifier on the command line the driver, after
  deploying the index, issues a similarity search and writes the rows to the spreadsheet.
  The branch \<^verbatim>\<open>if args.spreadsheet_id:\<close> of main only logs
  \<^verbatim>\<open>Saving results to spreadsheet...\<close> and passes. In the run below (a directory with
  two images, a service that answers every request, \<^verbatim>\<open>--spreadsheet-id sheet-1\<close>) main
  terminates successfully; its trace is listed in full, its HTTP requests are the six
  listed, none of them a search, and it holds no sheet update.
\<close>

theorem main_with_spreadsheet_id_only_logs:
  "main (scenario_env named_replies logo_listing) logo_args [] =
     (Inr (),
      [LogInfo ''Creating corpus...'',
       corpus_request (new_analyzer ''token''),
       LogInfo ''Processing images...'',
       LogInfo ''Starting image processing...'',
       GcsUpload ''my-bucket'' ''logos/a.png'' ''logos/20240307/a.png'',
       GcsUpload ''my-bucket'' ''logos/sub/B.JPG'' ''logos/20240307/B.JPG'',
       register_event (new_analyzer ''token'') ''bar123'' ''gs://my-bucket/logos/20240307/a.png'',
       register_event (new_analyzer ''token'') ''bar123'' ''gs://my-bucket/logos/20240307/B.JPG'',
       LogInfo ''Creating index...'',
       index_request (new_analyzer ''token'') ''bar123'',
       LogInfo ''Creating index endpoint...'',
       endpoint_request (new_analyzer ''token'') \<lparr>year = 2024, month = 3, day = 7\<rparr>,
       LogInfo ''Deploying index...'',
       deploy_request (new_analyzer ''token'') ''bar123'' ''bar123'' ''bar123'',
       LogInfo ''Saving results to spreadsheet...'',
       LogInfo ''Processing completed successfully!''])
   \<and> filter is_attempt (snd (main (scenario_env named_replies logo_listing) logo_args [])) =
       [corpus_request (new_analyzer ''token''),
        register_event (new_analyzer ''token'') ''bar123'' ''gs://my-bucket/logos/20240307/a.png'',
        register_event (new_analyzer ''token'') ''bar123'' ''gs://my-bucket/logos/20240307/B.JPG'',
        index_request (new_analyzer ''token'') ''bar123'',
        endpoint_request (new_analyzer ''token'') \<lparr>year = 2024, month = 3, day = 7\<rparr>,
        deploy_request (new_analyzer ''token'') ''bar123'' ''bar123'' ''bar123'']
   \<and> filter is_sheets_update (snd (main (scenario_env named_replies logo_listing) logo_args [])) = []"
proof -
  let ?E = "scenario_env named_replies logo_listing"
  let ?names = "\<lambda>ev :: event. ''projects/p/locations/us-central1/foo/bar123''"
  let ?d = "\<lparr>year = 2024, month = 3, day = 7\<rparr>"
  have h1: "gcloud ?E = Stdout ''token''" by (simp add: scenario_env_def)
  have h2: "\<forall>h. http ?E h = Json (creation_response (?names (last h)))"
    by (simp add: scenario_env_def named_replies_def)
  have h3: "\<forall>h. gcs_upload ?E h = None" by (simp add: scenario_env_def)
  have h4: "\<forall>h. now ?E h = ?d" by (simp add: scenario_env_def)
  have st: "strip ''token'' = ''token''" by (simp add: strip_def is_space_def)
  have seg: "last_segment ''projects/p/locations/us-central1/foo/bar123'' = ''bar123''"
    by (simp add: last_segment_def)
  have dir: "image_dir logo_args = ''logos''" "bucket logo_args = ''my-bucket''"
    "truthy (spreadsheet_id logo_args)"
    by (simp_all add: logo_args_def truthy_def)
  have blobs: "destination_blob ?d ''logos/a.png'' = ''logos/20240307/a.png''"
    "destination_blob ?d ''logos/sub/B.JPG'' = ''logos/20240307/B.JPG''"
    by code_simp+
  from main_ok[OF h1 h2 h3 h4 refl refl refl, of logo_args "[]"]
  have run: "main ?E logo_args [] =
      (Inr (), workflow_trace (new_analyzer ''token'') logo_args ?d ''bar123'' ''bar123'' ''bar123''
                 [[''logos/a.png'', ''logos/sub/B.JPG'']])"
    unfolding st seg dir logo_images logo_batches by auto
  have tr: "workflow_trace (new_analyzer ''token'') logo_args ?d ''bar123'' ''bar123'' ''bar123''
                 [[''logos/a.png'', ''logos/sub/B.JPG'']] =
      [LogInfo ''Creating corpus...'',
       corpus_request (new_analyzer ''token''),
       LogInfo ''Processing images...'',
       LogInfo ''Starting image processing...'',
       GcsUpload ''my-bucket'' ''logos/a.png'' ''logos/20240307/a.png'',
       GcsUpload ''my-bucket'' ''logos/sub/B.JPG'' ''logos/20240307/B.JPG'',
       register_event (new_analyzer ''token'') ''bar123'' ''gs://my-bucket/logos/20240307/a.png'',
       register_event (new_analyzer ''token'') ''bar123'' ''gs://my-bucket/logos/20240307/B.JPG'',
       LogInfo ''Creating index...'',
       index_request (new_analyzer ''token'') ''bar123'',
       LogInfo ''Creating index endpoint...'',
       endpoint_request (new_analyzer ''token'') ?d,
       LogInfo ''Deploying index...'',
       deploy_request (new_analyzer ''token'') ''bar123'' ''bar123'' ''bar123'',
       LogInfo ''Saving results to spreadsheet...'',
       LogInfo ''Processing completed successfully!'']"
    by (simp add: workflow_trace_def batch_events_def upload_event_def uploaded_uri_def dir blobs)
  show ?thesis
    unfolding run tr snd_conv
    by (simp add: corpus_request_def register_event_def index_request_def endpoint_request_def
          deploy_request_def post_event_def)
qed

section \<open>Properties of the image enumeration\<close>

lemma walk_files_filter:
  "walk_files root files acc =
     acc @ map (path_join root) (filter (\<lambda>file. endswith_any (str_lower file) SUPPORTED_FORMATS) files)"
  by (induction files arbitrary: acc) simp_all

lemma walk_dirs_concat:
  "walk_dirs listing acc =
     acc @ concat (map (\<lambda>(root, dirs, files).
             map (path_join root) (filter (\<lambda>file. endswith_any (str_lower file) SUPPORTED_FORMATS) files))
           listing)"
  by (induction listing arbitrary: acc) (auto simp: walk_files_filter)

lemma endswith_iff_append: "endswith s suf \<longleftrightarrow> (\<exists>stem. s = stem @ suf)"
proof
  assume "endswith s suf"
  then have "s = take (length s - length suf) s @ suf"
    by (metis append_take_drop_id endswith_def)
  then show "\<exists>stem. s = stem @ suf" ..
next
  assume "\<exists>stem. s = stem @ suf"
  then show "endswith s suf" by (auto simp: endswith_def)
qed

lemma endswith_lower_iff:
  "endswith (str_lower file) ext \<longleftrightarrow> (\<exists>stem suf. file = stem @ suf \<and> str_lower suf = ext)"
proof
  assume "endswith (str_lower file) ext"
  then obtain st where st: "str_lower file = st @ ext" using endswith_iff_append by blast
  then have "length st \<le> length file" by (metis length_append length_map le_add1 str_lower_def)
  have "file = take (length st) file @ drop (length st) file" by simp
  moreover have "str_lower (drop (length st) file) = ext"
    using st by (metis append_eq_conv_conj drop_map str_lower_def)
  ultimately show "\<exists>stem suf. file = stem @ suf \<and> str_lower suf = ext" by blast
next
  assume "\<exists>stem suf. file = stem @ suf \<and> str_lower suf = ext"
  then obtain stem suf where "file = stem @ suf" "str_lower suf = ext" by blast
  then have "str_lower file = str_lower stem @ ext" by (simp add: str_lower_def)
  then show "endswith (str_lower file) ext" using endswith_iff_append by blast
qed

lemma capital_codes:
  "capital_letters = map char_of ([65 ..< 91] @ [192 ..< 215] @ [216 ..< 223] :: nat list)"
  by code_simp

lemma lower_of_capitals: "map char_lower capital_letters = small_letters"
  by code_simp

lemma distinct_capitals: "distinct capital_letters"
  by code_simp

lemma length_letters: "length capital_letters = length small_letters"
  by code_simp

lemma char_lower_fold_case: "char_lower c = fold_case c"
proof (cases "c \<in> set capital_letters")
  case True
  then obtain i where i: "i < length capital_letters" "c = capital_letters ! i"
    by (metis in_set_conv_nth)
  have "map char_lower capital_letters ! i = small_letters ! i"
    by (simp only: lower_of_capitals)
  then have "char_lower c = small_letters ! i" using i by simp
  moreover have "map_of (zip capital_letters small_letters) c = Some (small_letters ! i)"
    using i length_letters distinct_capitals by (simp add: map_of_zip_nth)
  ultimately show ?thesis by (simp add: fold_case_def)
next
  case False
  then have "map_of (zip capital_letters small_letters) c = None"
    using length_letters by (simp add: map_of_zip_is_None)
  then have f: "fold_case c = c" by (simp add: fold_case_def)
  have "\<not> ((65 \<le> (of_char c :: nat) \<and> (of_char c :: nat) \<le> 90) \<or>
         (192 \<le> (of_char c :: nat) \<and> (of_char c :: nat) \<le> 222 \<and> (of_char c :: nat) \<noteq> 215))"
  proof
    assume "(65 \<le> (of_char c :: nat) \<and> (of_char c :: nat) \<le> 90) \<or>
         (192 \<le> (of_char c :: nat) \<and> (of_char c :: nat) \<le> 222 \<and> (of_char c :: nat) \<noteq> 215)"
    then have "(of_char c :: nat) \<in> set ([65 ..< 91] @ [192 ..< 215] @ [216 ..< 223])"
      unfolding set_append set_upt Un_iff atLeastLessThan_iff by arith
    then have "char_of (of_char c :: nat) \<in> set capital_letters"
      unfolding capital_codes by (simp only: set_map image_eqI)
    then show False using False by simp
  qed
  then have "char_lower c = c" unfolding char_lower_def by (rule if_not_P)
  then show ?thesis using f by simp
qed

lemma str_lower_fold: "str_lower s = map fold_case s"
  by (simp add: str_lower_def char_lower_fold_case)

lemma lower_extensions:
  "str_lower ''.jpg'' = ''.jpg''" "str_lower ''.jpeg'' = ''.jpeg''" "str_lower ''.png'' = ''.png''"
  by code_simp+

lemma fold_extensions:
  "map fold_case ''.jpg'' = ''.jpg''" "map fold_case ''.jpeg'' = ''.jpeg''" "map fold_case ''.png'' = ''.png''"
  using lower_extensions by (simp_all only: str_lower_fold)

text \<open>
  Claim C5. The enumeration is, in traversal order, the joined path of every file of
  every directory that the walk yields whose name passes the test of the source, and a
  name passes that test if and only if it ends with a string that is, compared without
  regard to letter case, \<^verbatim>\<open>.jpg\<close>, \<^verbatim>\<open>.jpeg\<close> or \<^verbatim>\<open>.png\<close>. So a file of the walk
  is included exactly when its name ends with an allowed extension in any mix of capital
  and small letters, and every other file is excluded.
\<close>

theorem enumerate_images_by_extension:
  "enumerate_images E dir =
     concat (map (\<lambda>(root, dirs, files).
               map (path_join root)
                 (filter (\<lambda>file. endswith_any (str_lower file) SUPPORTED_FORMATS) files))
             (os_walk E dir))
   \<and> (endswith_any (str_lower file) SUPPORTED_FORMATS \<longleftrightarrow>
        (\<exists>stem suf. file = stem @ suf \<and>
           (same_ignoring_case suf ''.jpg'' \<or> same_ignoring_case suf ''.jpeg'' \<or>
            same_ignoring_case suf ''.png'')))
   \<and> set (enumerate_images E dir) =
        {path_join root f | root dirs files f.
           (root, dirs, files) \<in> set (os_walk E dir) \<and> f \<in> set files \<and>
           (\<exists>stem suf. f = stem @ suf \<and>
              (same_ignoring_case suf ''.jpg'' \<or> same_ignoring_case suf ''.jpeg'' \<or>
               same_ignoring_case suf ''.png''))}"
proof -
  have same: "same_ignoring_case suf ''.jpg'' = (str_lower suf = ''.jpg'')"
    "same_ignoring_case suf ''.jpeg'' = (str_lower suf = ''.jpeg'')"
    "same_ignoring_case suf ''.png'' = (str_lower suf = ''.png'')" for suf
    by (simp_all only: same_ignoring_case_def fold_extensions str_lower_fold)
  have test: "endswith_any (str_lower f) SUPPORTED_FORMATS \<longleftrightarrow>
        (\<exists>stem suf. f = stem @ suf \<and>
           (same_ignoring_case suf ''.jpg'' \<or> same_ignoring_case suf ''.jpeg'' \<or>
            same_ignoring_case suf ''.png''))" for f
    unfolding endswith_any_def SUPPORTED_FORMATS_def list_ex_iff same
    by (simp add: endswith_lower_iff) blast
  have enum: "enumerate_images E dir =
     concat (map (\<lambda>(root, dirs, files).
               map (path_join root)
                 (filter (\<lambda>file. endswith_any (str_lower file) SUPPORTED_FORMATS) files))
             (os_walk E dir))"
    by (simp add: enumerate_images_def walk_dirs_concat)
  have "set (enumerate_images E dir) =
        {path_join root f | root dirs files f.
           (root, dirs, files) \<in> set (os_walk E dir) \<and> f \<in> set files \<and>
           endswith_any (str_lower f) SUPPORTED_FORMATS}"
    unfolding enum by force
  then show ?thesis using enum test by simp
qed

theorem enumerate_images_by_extension_witness:
  "endswith_any (str_lower ''B.JPG'') SUPPORTED_FORMATS
   \<and> endswith_any (str_lower ''photo.JpEg'') SUPPORTED_FORMATS
   \<and> \<not> endswith_any (str_lower ''notes.txt'') SUPPORTED_FORMATS
   \<and> enumerate_images (scenario_env named_replies logo_listing) ''logos''
       = [''logos/a.png'', ''logos/sub/B.JPG'']"
proof -
  let ?E = "scenario_env named_replies logo_listing"
  have "str_lower ''.JPG'' = str_lower ''.jpg''" "str_lower ''.JpEg'' = str_lower ''.jpeg''"
    by code_simp+
  then have j: "same_ignoring_case ''.JPG'' ''.jpg''" "same_ignoring_case ''.JpEg'' ''.jpeg''"
    by (simp_all only: same_ignoring_case_def str_lower_fold)
  have "\<exists>stem suf. ''B.JPG'' = stem @ suf \<and>
           (same_ignoring_case suf ''.jpg'' \<or> same_ignoring_case suf ''.jpeg'' \<or>
            same_ignoring_case suf ''.png'')"
    using j(1) by (intro exI[of _ "''B''"] exI[of _ "''.JPG''"]) simp
  then have a: "endswith_any (str_lower ''B.JPG'') SUPPORTED_FORMATS"
    using enumerate_images_by_extension[of ?E "''logos''" "''B.JPG''"] by blast
  have "\<exists>stem suf. ''photo.JpEg'' = stem @ suf \<and>
           (same_ignoring_case suf ''.jpg'' \<or> same_ignoring_case suf ''.jpeg'' \<or>
            same_ignoring_case suf ''.png'')"
    using j(2) by (intro exI[of _ "''photo''"] exI[of _ "''.JpEg''"]) simp
  then have b: "endswith_any (str_lower ''photo.JpEg'') SUPPORTED_FORMATS"
    using enumerate_images_by_extension[of ?E "''logos''" "''photo.JpEg''"] by blast
  have c: "\<not> endswith_any (str_lower ''notes.txt'') SUPPORTED_FORMATS" by code_simp
  have d: "enumerate_images ?E ''logos'' = [''logos/a.png'', ''logos/sub/B.JPG'']"
    by (rule logo_images)
  show ?thesis using a b c d by blast
qed

section \<open>Properties of the remote object path\<close>

lemma rfind_none: "sep \<notin> set s \<Longrightarrow> rfind sep s = - 1"
proof -
  assume a: "sep \<notin> set s"
  have "filter (\<lambda>i. s ! i = sep) (rev [0 ..< length s]) = []"
    using a by (auto simp: filter_empty_conv)
  then show ?thesis by (simp add: rfind_def)
qed

lemma rfind_last_sep:
  assumes "sep \<notin> set f"
  shows "rfind sep (pre @ sep # f) = int (length pre)"
proof -
  let ?s = "pre @ sep # f"
  have "[0 ..< length pre + Suc (length f)] = [0 ..< length pre] @ [length pre ..< length pre + Suc (length f)]"
    by (rule upt_add_eq_append) simp
  moreover have "[length pre ..< length pre + Suc (length f)]
                   = length pre # [Suc (length pre) ..< length pre + Suc (length f)]"
    by (rule upt_conv_Cons) simp
  ultimately have up: "[0 ..< length ?s] = [0 ..< length pre] @ length pre # [Suc (length pre) ..< length ?s]"
    by simp
  have none: "filter (\<lambda>i. ?s ! i = sep) (rev [Suc (length pre) ..< length ?s]) = []"
    using assms by (auto simp: filter_empty_conv nth_append nth_Cons')
  have "filter (\<lambda>i. ?s ! i = sep) (rev [0 ..< length ?s])
          = length pre # filter (\<lambda>i. ?s ! i = sep) (rev [0 ..< length pre])"
    unfolding up using none by simp
  then show ?thesis by (simp add: rfind_def)
qed

lemma basename_no_sep: "CHR ''/'' \<notin> set f \<Longrightarrow> basename f = f"
  by (simp add: basename_def rfind_none)

lemma basename_after_sep:
  assumes "CHR ''/'' \<notin> set f"
  shows "basename (pre @ CHR ''/'' # f) = f"
proof -
  have "nat (int (length pre) + 1) = Suc (length pre)" by simp
  then show ?thesis using assms by (simp add: basename_def rfind_last_sep del: of_nat_Suc)
qed

lemma basename_path_join:
  assumes "CHR ''/'' \<notin> set f"
  shows "basename (path_join dir f) = f"
proof -
  have nohd: "\<not> (f \<noteq> [] \<and> hd f = CHR ''/'')" using assms by (cases f) auto
  show ?thesis
  proof (cases "dir = []")
    case True
    then show ?thesis using nohd assms by (auto simp: path_join_def basename_no_sep)
  next
    case False
    show ?thesis
    proof (cases "last dir = CHR ''/''")
      case True
      with False obtain pre where pre: "dir = pre @ [CHR ''/'']"
        by (metis append_butlast_last_id)
      have "basename (dir @ f) = f"
        unfolding pre using basename_after_sep[OF assms, of pre] by simp
      moreover have "path_join dir f = dir @ f"
        using nohd True by (auto simp: path_join_def)
      ultimately show ?thesis by simp
    next
      case l: False
      then show ?thesis using nohd assms False
        by (auto simp: path_join_def basename_after_sep)
    qed
  qed
qed


lemma digit_chars: "map digit_char [0 ..< 10] = ''0123456789''"
  by code_simp

lemma digit_char_digit: "d < 10 \<Longrightarrow> digit_char d \<in> set ''0123456789''"
proof -
  assume "d < 10"
  then have "digit_char d \<in> set (map digit_char [0 ..< 10])" by simp
  then show ?thesis unfolding digit_chars .
qed

lemma set_str_nat: "set (str_nat n) \<subseteq> set ''0123456789''"
proof (induction n rule: str_nat.induct)
  case (1 n)
  show ?case
  proof (cases "n < 10")
    case True
    then show ?thesis using digit_char_digit[of n] by (subst str_nat.simps) simp
  next
    case False
    have "n mod 10 < 10" by simp
    then have "digit_char (n mod 10) \<in> set ''0123456789''" by (rule digit_char_digit)
    then show ?thesis using 1 False by (subst str_nat.simps) simp
  qed
qed

lemma length_str_nat: "0 < k \<Longrightarrow> n < 10 ^ k \<Longrightarrow> length (str_nat n) \<le> k"
proof (induction n arbitrary: k rule: str_nat.induct)
  case (1 n)
  show ?case
  proof (cases "n < 10")
    case True
    then show ?thesis using 1(2) by (subst str_nat.simps) simp
  next
    case False
    obtain j where j: "k = Suc j" using 1(2) by (cases k) auto
    have "j \<noteq> 0" using False 1(3) j by (cases j) auto
    moreover have "n div 10 < 10 ^ j" using 1(3) j by (simp add: less_mult_imp_div_less mult.commute)
    ultimately have "length (str_nat (n div 10)) \<le> j" using 1(1)[OF False, of j] by simp
    then show ?thesis using False j by (subst str_nat.simps) simp
  qed
qed

lemma length_zfill: "length s \<le> w \<Longrightarrow> length (zfill w s) = w"
  by (simp add: zfill_def)

lemma set_zfill: "set (zfill w s) \<subseteq> insert (CHR ''0'') (set s)"
  by (auto simp: zfill_def)

lemma digit_values: "map (\<lambda>d. (of_char (digit_char d) :: nat) - 48) [0 ..< 10] = [0 ..< 10]"
  by code_simp

lemma digit_char_value: "d < 10 \<Longrightarrow> (of_char (digit_char d) :: nat) - 48 = d"
proof -
  assume d: "d < 10"
  have "map (\<lambda>d. (of_char (digit_char d) :: nat) - 48) [0 ..< 10] ! d = [0 ..< 10] ! d"
    by (simp only: digit_values)
  then show ?thesis using d by simp
qed

lemma decimal_value_snoc: "decimal_value (s @ [c]) = 10 * decimal_value s + ((of_char c :: nat) - 48)"
  by (simp add: decimal_value_def)

lemma decimal_value_str_nat: "decimal_value (str_nat n) = n"
proof (induction n rule: str_nat.induct)
  case (1 n)
  show ?case
  proof (cases "n < 10")
    case True
    then show ?thesis
      using decimal_value_snoc[of "[]" "digit_char n"] digit_char_value[of n]
      by (subst str_nat.simps) (simp add: decimal_value_def)
  next
    case False
    have "n mod 10 < 10" by simp
    then have "(of_char (digit_char (n mod 10)) :: nat) - 48 = n mod 10" by (rule digit_char_value)
    then show ?thesis using 1 False
      by (subst str_nat.simps) (simp add: decimal_value_snoc)
  qed
qed

lemma decimal_value_zeros: "decimal_value (replicate k (CHR ''0'') @ s) = decimal_value s"
proof -
  have "foldl (\<lambda>acc c. 10 * acc + ((of_char c :: nat) - 48)) 0 (replicate k (CHR ''0'')) = 0"
    by (induction k) simp_all
  then show ?thesis by (simp add: decimal_value_def)
qed

lemma decimal_value_zfill: "decimal_value (zfill w (str_nat n)) = n"
  by (simp add: zfill_def decimal_value_zeros decimal_value_str_nat)

lemma length_str_nat_ge: "10 ^ k \<le> n \<Longrightarrow> k < length (str_nat n)"
proof (induction n arbitrary: k rule: str_nat.induct)
  case (1 n)
  show ?case
  proof (cases "n < 10")
    case True
    have "k = 0"
    proof (cases k)
      case 0
      then show ?thesis .
    next
      case (Suc j)
      have "(1::nat) \<le> 10 ^ j" by simp
      then have "(10::nat) \<le> 10 * 10 ^ j" by simp
      moreover have "(10::nat) ^ k = 10 * 10 ^ j" using Suc by simp
      ultimately have "10 \<le> n" using 1(2) by linarith
      then show ?thesis using True by simp
    qed
    then show ?thesis using True by (subst str_nat.simps) simp
  next
    case False
    show ?thesis
    proof (cases k)
      case 0
      then show ?thesis by (subst str_nat.simps) simp
    next
      case (Suc j)
      then have "10 ^ j \<le> n div 10" using 1(2) by (simp add: less_eq_div_iff_mult_less_eq mult.commute)
      then have "j < length (str_nat (n div 10))" using 1(1)[OF False] by simp
      then show ?thesis using False Suc by (subst str_nat.simps) simp
    qed
  qed
qed

lemma strftime_Ymd_shape:
  assumes "1000 \<le> year d" "year d < 10000" "month d < 100" "day d < 100"
  shows "length (strftime_Ymd d) = 8"
    and "set (strftime_Ymd d) \<subseteq> set ''0123456789''"
    and "decimal_value (take 4 (strftime_Ymd d)) = year d"
    and "decimal_value (take 2 (drop 4 (strftime_Ymd d))) = month d"
    and "decimal_value (drop 6 (strftime_Ymd d)) = day d"
proof -
  have "length (str_nat (year d)) \<le> 4" using assms(2) by (simp add: length_str_nat)
  moreover have "3 < length (str_nat (year d))" using assms(1) length_str_nat_ge[of 3 "year d"] by simp
  ultimately have ly: "length (str_nat (year d)) = 4" by simp
  have lm: "length (zfill 2 (str_nat (month d))) = 2" and ld: "length (zfill 2 (str_nat (day d))) = 2"
    using assms(3,4) by (simp_all add: length_str_nat length_zfill)
  show "length (strftime_Ymd d) = 8" using ly lm ld by (simp add: strftime_Ymd_def)
  have "set (zfill w (str_nat n)) \<subseteq> set ''0123456789''" for w n
    using set_zfill[of w "str_nat n"] set_str_nat[of n] by auto
  then show "set (strftime_Ymd d) \<subseteq> set ''0123456789''"
    unfolding strftime_Ymd_def set_append using set_str_nat[of "year d"] by blast
  show "decimal_value (take 4 (strftime_Ymd d)) = year d"
    using ly by (simp add: strftime_Ymd_def decimal_value_str_nat)
  show "decimal_value (take 2 (drop 4 (strftime_Ymd d))) = month d"
    using ly lm by (simp add: strftime_Ymd_def decimal_value_zfill)
  show "decimal_value (drop 6 (strftime_Ymd d)) = day d"
    using ly lm by (simp add: strftime_Ymd_def decimal_value_zfill)
qed

lemma upload_batch_events:
  "\<exists>evs. snd (upload_batch E b batch uris tr) = tr @ evs \<and>
         length evs \<le> length batch \<and>
         (\<forall>i < length evs.
            evs ! i = GcsUpload b (batch ! i) (destination_blob (now E (tr @ take i evs)) (batch ! i)))"
proof (induction batch arbitrary: uris tr)
  case Nil
  then show ?case by simp
next
  case (Cons p batch)
  let ?ev = "GcsUpload b p (destination_blob (now E tr) p)"
  show ?case
  proof (cases "gcs_upload E (tr @ [?ev])")
    case (Some x)
    then have "snd (upload_batch E b (p # batch) uris tr) = tr @ [?ev]"
      by (simp add: upload_to_gcs_def)
    then show ?thesis by (intro exI[of _ "[?ev]"]) simp
  next
    case None
    then have step: "upload_batch E b (p # batch) uris tr =
        upload_batch E b batch (uris @ [''gs://'' @ b @ ''/'' @ destination_blob (now E tr) p]) (tr @ [?ev])"
      by (simp add: upload_to_gcs_def)
    from Cons[of "uris @ [''gs://'' @ b @ ''/'' @ destination_blob (now E tr) p]" "tr @ [?ev]"]
    obtain evs where evs: "snd (upload_batch E b batch (uris @ [''gs://'' @ b @ ''/'' @ destination_blob (now E tr) p]) (tr @ [?ev]))
         = (tr @ [?ev]) @ evs"
      "length evs \<le> length batch"
      "\<forall>i < length evs.
            evs ! i = GcsUpload b (batch ! i) (destination_blob (now E ((tr @ [?ev]) @ take i evs)) (batch ! i))"
      by blast
    have "snd (upload_batch E b (p # batch) uris tr) = tr @ (?ev # evs)"
      unfolding step using evs(1) by simp
    moreover have "\<forall>i < length (?ev # evs).
            (?ev # evs) ! i = GcsUpload b ((p # batch) ! i)
               (destination_blob (now E (tr @ take i (?ev # evs))) ((p # batch) ! i))"
    proof (intro allI impI)
      fix i assume "i < length (?ev # evs)"
      then show "(?ev # evs) ! i = GcsUpload b ((p # batch) ! i)
               (destination_blob (now E (tr @ take i (?ev # evs))) ((p # batch) ! i))"
        using evs(3) by (cases i) auto
    qed
    moreover have "length (?ev # evs) \<le> length (p # batch)" using evs(2) by simp
    ultimately show ?thesis by blast
  qed
qed

text \<open>
  Claim C8. Every upload that the batch loop issues has as remote object path the prefix
  \<^verbatim>\<open>logos/\<close>, the date of the moment of that upload as \<^verbatim>\<open>%Y%m%d\<close>, a slash and
  the base name of the file. The path depends on the file through its base name only:
  two paths with the same base name get the same remote path on the same date, and a
  file name joined to any directory gets the remote path of the bare name. For a year
  from 1000 to 9999 the date part is eight decimal digits, of which the first four write
  the year, the next two the month and the last two the day.
\<close>

theorem remote_path_of_upload:
  "(\<exists>evs. snd (upload_batch E bucket_name batch gcs_uris tr) = tr @ evs \<and>
      length evs \<le> length batch \<and>
      (\<forall>i < length evs.
          evs ! i = GcsUpload bucket_name (batch ! i)
                      (''logos/'' @ strftime_Ymd (now E (tr @ take i evs)) @ ''/'' @ basename (batch ! i))))
   \<and> (basename p = basename q \<longrightarrow> destination_blob d p = destination_blob d q)
   \<and> (CHR ''/'' \<notin> set file \<longrightarrow>
        destination_blob d (path_join dir1 file) = ''logos/'' @ strftime_Ymd d @ ''/'' @ file \<and>
        destination_blob d (path_join dir2 file) = destination_blob d (path_join dir1 file))
   \<and> (1000 \<le> year d \<and> year d < 10000 \<and> month d < 100 \<and> day d < 100 \<longrightarrow>
        length (strftime_Ymd d) = 8 \<and> set (strftime_Ymd d) \<subseteq> set ''0123456789'' \<and>
        decimal_value (take 4 (strftime_Ymd d)) = year d \<and>
        decimal_value (take 2 (drop 4 (strftime_Ymd d))) = month d \<and>
        decimal_value (drop 6 (strftime_Ymd d)) = day d)"
proof (intro conjI impI)
  show "\<exists>evs. snd (upload_batch E bucket_name batch gcs_uris tr) = tr @ evs \<and>
      length evs \<le> length batch \<and>
      (\<forall>i < length evs.
          evs ! i = GcsUpload bucket_name (batch ! i)
                      (''logos/'' @ strftime_Ymd (now E (tr @ take i evs)) @ ''/'' @ basename (batch ! i)))"
    using upload_batch_events[of E bucket_name batch gcs_uris tr]
    by (simp add: destination_blob_def)
next
  assume "basename p = basename q"
  then show "destination_blob d p = destination_blob d q" by (simp add: destination_blob_def)
next
  assume "CHR ''/'' \<notin> set file"
  then show "destination_blob d (path_join dir1 file) = ''logos/'' @ strftime_Ymd d @ ''/'' @ file"
    and "destination_blob d (path_join dir2 file) = destination_blob d (path_join dir1 file)"
    by (simp_all add: destination_blob_def basename_path_join)
next
  assume a: "1000 \<le> year d \<and> year d < 10000 \<and> month d < 100 \<and> day d < 100"
  then show "length (strftime_Ymd d) = 8" and "set (strftime_Ymd d) \<subseteq> set ''0123456789''"
    and "decimal_value (take 4 (strftime_Ymd d)) = year d"
    and "decimal_value (take 2 (drop 4 (strftime_Ymd d))) = month d"
    and "decimal_value (drop 6 (strftime_Ymd d)) = day d"
    using strftime_Ymd_shape[of d] by blast+
qed

theorem remote_path_of_upload_witness:
  "destination_blob \<lparr>year = 2024, month = 3, day = 7\<rparr> ''x/logo.png''
     = destination_blob \<lparr>year = 2024, month = 3, day = 7\<rparr> ''y/logo.png''
   \<and> destination_blob \<lparr>year = 2024, month = 3, day = 7\<rparr> (path_join ''x'' ''logo.png'')
     = ''logos/20240307/logo.png''
   \<and> destination_blob \<lparr>year = 2024, month = 3, day = 7\<rparr> (path_join ''y'' ''logo.png'')
     = ''logos/20240307/logo.png''
   \<and> strftime_Ymd \<lparr>year = 2024, month = 3, day = 7\<rparr> = ''20240307''
   \<and> strftime_Ymd \<lparr>year = 1999, month = 12, day = 31\<rparr> = ''19991231''
   \<and> decimal_value (take 4 (strftime_Ymd \<lparr>year = 1999, month = 12, day = 31\<rparr>)) = 1999
   \<and> decimal_value (take 2 (drop 4 (strftime_Ymd \<lparr>year = 1999, month = 12, day = 31\<rparr>))) = 12
   \<and> decimal_value (drop 6 (strftime_Ymd \<lparr>year = 1999, month = 12, day = 31\<rparr>)) = 31
   \<and> snd (upload_batch (scenario_env named_replies []) ''b'' [''x/logo.png'', ''y/logo.png''] [] [])
     = [GcsUpload ''b'' ''x/logo.png'' ''logos/20240307/logo.png'',
        GcsUpload ''b'' ''y/logo.png'' ''logos/20240307/logo.png'']"
proof -
  let ?d = "\<lparr>year = 2024, month = 3, day = 7\<rparr>"
  let ?e = "\<lparr>year = 1999, month = 12, day = 31\<rparr>"
  have b: "basename ''x/logo.png'' = basename ''y/logo.png''" by code_simp
  have f: "CHR ''/'' \<notin> set ''logo.png''" by simp
  have y: "1000 \<le> year ?e \<and> year ?e < 10000 \<and> month ?e < 100 \<and> day ?e < 100" by simp
  have s: "strftime_Ymd ?d = ''20240307''" by code_simp
  have s2: "strftime_Ymd ?e = ''19991231''" by code_simp
  have u: "snd (upload_batch (scenario_env named_replies []) ''b'' [''x/logo.png'', ''y/logo.png''] [] [])
     = [GcsUpload ''b'' ''x/logo.png'' ''logos/20240307/logo.png'',
        GcsUpload ''b'' ''y/logo.png'' ''logos/20240307/logo.png'']"
    by code_simp
  from remote_path_of_upload[of "scenario_env named_replies []" "''b''" "[''x/logo.png'', ''y/logo.png'']"
         "[]" "[]" "''x/logo.png''" "''y/logo.png''" ?d "''logo.png''" "''x''" "''y''"]
  have A: "destination_blob ?d ''x/logo.png'' = destination_blob ?d ''y/logo.png''"
    "destination_blob ?d (path_join ''x'' ''logo.png'') = ''logos/20240307/logo.png''"
    "destination_blob ?d (path_join ''y'' ''logo.png'') = ''logos/20240307/logo.png''"
    using b f unfolding s by simp_all
  from remote_path_of_upload[of "scenario_env named_replies []" "''b''" "[]"
         "[]" "[]" "''x/logo.png''" "''y/logo.png''" ?e "''logo.png''" "''x''" "''y''"]
  have B: "decimal_value (take 4 (strftime_Ymd ?e)) = 1999"
    "decimal_value (take 2 (drop 4 (strftime_Ymd ?e))) = 12"
    "decimal_value (drop 6 (strftime_Ymd ?e)) = 31"
    using y by simp_all
  show ?thesis using A B s s2 u by blast
qed

section \<open>Properties of the batching\<close>

lemma range_from_0 [simp]: "stop \<le> i \<Longrightarrow> range_from i stop step = []"
  by (subst range_from.simps) simp

lemma range_from_step: "0 < step \<Longrightarrow> i < stop \<Longrightarrow> range_from i stop step = i # range_from (i + step) stop step"
  by (subst range_from.simps) simp

lemma range_from_nth:
  "0 < B \<Longrightarrow> k < length (range_from i n B) \<Longrightarrow> range_from i n B ! k = i + k * B"
proof (induction i n B arbitrary: k rule: range_from.induct)
  case (1 i n B)
  show ?case
  proof (cases "i < n")
    case True
    then have eq: "range_from i n B = i # range_from (i + B) n B" using 1(2) by (simp add: range_from_step)
    show ?thesis
    proof (cases k)
      case 0
      then show ?thesis using eq by simp
    next
      case (Suc j)
      then have "j < length (range_from (i + B) n B)" using 1(3) eq by simp
      then have "range_from (i + B) n B ! j = i + B + j * B" using 1(1)[of j] 1(2) True by simp
      then show ?thesis using eq Suc by simp
    qed
  next
    case False
    then show ?thesis using 1(3) by simp
  qed
qed

lemma length_range_from:
  "0 < B \<Longrightarrow> length (range_from i n B) = (n - i + B - 1) div B"
proof (induction i n B rule: range_from.induct)
  case (1 i n B)
  show ?case
  proof (cases "i < n")
    case True
    then have eq: "range_from i n B = i # range_from (i + B) n B" using 1(2) by (simp add: range_from_step)
    define m where "m = n - (i + B) + B - 1"
    have "length (range_from (i + B) n B) = m div B"
      using 1(1) 1(2) True by (simp add: m_def)
    moreover have "Suc (m div B) = (n - i + B - 1) div B"
    proof (cases "i + B \<le> n")
      case le: True
      then have "n - i + B - 1 = m + B" using True 1(2) by (simp add: m_def)
      moreover have "(m + B) div B = Suc (m div B)"
        by (subst div_add_self2) (use 1(2) in simp_all)
      ultimately show ?thesis by simp
    next
      case gt: False
      then have a: "m = B - 1" by (simp add: m_def)
      have "\<exists>r. n - i + B - 1 = B + r \<and> r < B" using True gt 1(2) by (intro exI[of _ "n - i - 1"]) arith
      then obtain r where r: "n - i + B - 1 = B + r" "r < B" by blast
      have "(B + r) div B = 1"
        by (subst div_add_self1) (use r(2) 1(2) in simp_all)
      moreover have "(B - 1) div B = 0" using 1(2) by simp
      ultimately show ?thesis using a r(1) by simp
    qed
    ultimately show ?thesis using eq by simp
  next
    case False
    then have "n - i + B - 1 < B" using 1(2) by simp
    then show ?thesis using False by simp
  qed
qed

lemma concat_slices:
  "0 < B \<Longrightarrow> concat (map (\<lambda>j. slice xs j (j + B)) (range_from i (length xs) B)) = drop i xs"
proof (induction i "length xs" B rule: range_from.induct)
  case (1 i B)
  show ?case
  proof (cases "i < length xs")
    case True
    then have eq: "range_from i (length xs) B = i # range_from (i + B) (length xs) B"
      using 1(2) by (simp add: range_from_step)
    have "concat (map (\<lambda>j. slice xs j (j + B)) (range_from (i + B) (length xs) B)) = drop (i + B) xs"
      using 1(1) 1(2) True by simp
    then have "concat (map (\<lambda>j. slice xs j (j + B)) (range_from i (length xs) B))
                 = take B (drop i xs) @ drop B (drop i xs)"
      unfolding eq by (simp add: slice_def add.commute)
    then show ?thesis by (metis append_take_drop_id drop_drop)
  next
    case False
    then show ?thesis by simp
  qed
qed


lemma ceil_div_cases:
  assumes "0 < (B::nat)"
  shows "(N + B - 1) div B = (if N mod B = 0 then N div B else Suc (N div B))"
proof -
  define q r where "q = N div B" and "r = N mod B"
  have N: "N = B * q + r" and r: "r < B" using assms by (simp_all add: q_def r_def)
  have S: "B * Suc q = B * q + B" by simp
  show ?thesis
  proof (cases "r = 0")
    case True
    have "(N + B - 1) div B = q"
    proof (rule div_nat_eqI)
      show "B * q \<le> N + B - 1" using N True assms by arith
      show "N + B - 1 < B * Suc q" unfolding S using N True assms by arith
    qed
    then show ?thesis using True by (simp add: q_def r_def)
  next
    case False
    have S2: "B * Suc (Suc q) = B * q + B + B" by simp
    have "(N + B - 1) div B = Suc q"
    proof (rule div_nat_eqI)
      show "B * Suc q \<le> N + B - 1" unfolding S using N False assms by arith
      show "N + B - 1 < B * Suc (Suc q)" unfolding S2 using N r assms by arith
    qed
    then show ?thesis using False by (simp add: q_def r_def)
  qed
qed


lemma batch_loop_run_batches:
  "batch_loop E self corpus_id bucket_name image_files indices tr =
     run_batches (process_batch E self corpus_id bucket_name)
       (map (\<lambda>i. slice image_files i (i + BATCH_SIZE)) indices) tr"
  by (induction indices arbitrary: tr) (auto split: prod.splits sum.splits)

lemma chunk_length:
  assumes "0 < (B::nat)" "k < (N + B - 1) div B"
  shows "min B (N - k * B) =
           (if Suc k < (N + B - 1) div B then B else if N mod B = 0 then B else N mod B)"
proof -
  define q r where "q = N div B" and "r = N mod B"
  have N: "N = B * q + r" and r: "r < B" using assms(1) by (simp_all add: q_def r_def)
  have L: "(N + B - 1) div B = (if r = 0 then q else Suc q)"
    using ceil_div_cases[OF assms(1), of N] by (simp add: q_def r_def)
  have full: "min B (N - k * B) = B" if "k < q"
  proof -
    from that have "Suc k \<le> q" by simp
    then have "B * Suc k \<le> B * q" by (rule mult_le_mono2)
    then have "k * B + B \<le> N" using N by (simp add: mult.commute)
    then show ?thesis by simp
  qed
  show ?thesis
  proof (cases "r = 0")
    case True
    then have "k < q" using assms(2) L by simp
    then show ?thesis using full True by (simp add: r_def)
  next
    case False
    then have kq: "k \<le> q" using assms(2) L by simp
    show ?thesis
    proof (cases "k < q")
      case True
      then show ?thesis using full L False by simp
    next
      case nlt: False
      then have "k = q" using kq by simp
      then have "N - k * B = r" using N by (simp add: mult.commute)
      then show ?thesis using L False r \<open>k = q\<close> by (simp add: r_def)
    qed
  qed
qed

text \<open>
  Claim C3. For a batch size \<open>B > 0\<close> the slices of the processing loop partition the
  list into contiguous chunks in order: their concatenation is the list, chunk \<open>k\<close>
  is the \<open>B\<close> elements from position \<open>k * B\<close> on, there are
  \<open>(N + B - 1) div B\<close> of them (the ceiling of \<open>N / B\<close>), and each has \<open>B\<close>
  elements except the last, which has \<open>N mod B\<close>, or \<open>B\<close> when that is zero.
  \<^verbatim>\<open>process_images\<close> processes these chunks, for \<open>BATCH_SIZE\<close>, one after the
  other, each to its end before the next.
\<close>

theorem batches_partition:
  assumes "0 < B"
  shows "(\<exists>bs. batches B xs = Inr bs
            \<and> concat bs = xs
            \<and> length bs = (length xs + B - 1) div B
            \<and> (\<forall>k < length bs. bs ! k = take B (drop (k * B) xs))
            \<and> (\<forall>k < length bs. length (bs ! k) =
                  (if Suc k < length bs then B
                   else if length xs mod B = 0 then B else length xs mod B)))
       \<and> (\<exists>bs. batches BATCH_SIZE (enumerate_images E dir) = Inr bs
            \<and> process_images E self dir corpus_id bucket_name tr =
                run_batches (process_batch E self corpus_id bucket_name) bs
                  (tr @ [LogInfo ''Starting image processing...'']))"
proof -
  let ?bs = "map (\<lambda>i. slice xs i (i + B)) (range_from 0 (length xs) B)"
  have b: "batches B xs = Inr ?bs" using assms by (simp add: batches_pos)
  have len: "length ?bs = (length xs + B - 1) div B"
    using length_range_from[OF assms, of 0 "length xs"] by simp
  have cat: "concat ?bs = xs" using concat_slices[OF assms, of xs 0] by simp
  have nth: "?bs ! k = take B (drop (k * B) xs)" if "k < length ?bs" for k
    using that range_from_nth[OF assms, of k 0 "length xs"] by (simp add: slice_def)
  have size: "length (?bs ! k) =
        (if Suc k < length ?bs then B else if length xs mod B = 0 then B else length xs mod B)"
    if "k < length ?bs" for k
  proof -
    have "length (?bs ! k) = min B (length xs - k * B)"
      using nth[OF that] by (simp add: min.commute)
    then show ?thesis using chunk_length[OF assms, of k "length xs"] that unfolding len by simp
  qed
  have pos: "0 < BATCH_SIZE" by (simp add: BATCH_SIZE_def)
  have "process_images E self dir corpus_id bucket_name tr =
          run_batches (process_batch E self corpus_id bucket_name)
            (map (\<lambda>i. slice (enumerate_images E dir) i (i + BATCH_SIZE))
               (range_from 0 (length (enumerate_images E dir)) BATCH_SIZE))
            (tr @ [LogInfo ''Starting image processing...''])"
    using pos by (simp add: process_images_def py_range_def batch_loop_run_batches)
  then have second: "\<exists>bs. batches BATCH_SIZE (enumerate_images E dir) = Inr bs
            \<and> process_images E self dir corpus_id bucket_name tr =
                run_batches (process_batch E self corpus_id bucket_name) bs
                  (tr @ [LogInfo ''Starting image processing...''])"
    using pos by (simp add: batches_pos)
  have first: "\<exists>bs. batches B xs = Inr bs
            \<and> concat bs = xs
            \<and> length bs = (length xs + B - 1) div B
            \<and> (\<forall>k < length bs. bs ! k = take B (drop (k * B) xs))
            \<and> (\<forall>k < length bs. length (bs ! k) =
                  (if Suc k < length bs then B
                   else if length xs mod B = 0 then B else length xs mod B))"
    using b cat len nth size by (intro exI[of _ ?bs]) blast
  show ?thesis using first second by blast
qed


theorem batches_partition_witness:
  "\<exists>bs. batches 100 (replicate 250 ''logo.png'') = Inr bs
        \<and> concat bs = replicate 250 ''logo.png''
        \<and> length bs = 3
        \<and> length (bs ! 0) = 100 \<and> length (bs ! 1) = 100 \<and> length (bs ! 2) = 50"
proof -
  have pos: "0 < (100::nat)" by simp
  from batches_partition[OF pos, of "replicate 250 ''logo.png''"]
  obtain bs where bs: "batches 100 (replicate 250 ''logo.png'') = Inr bs"
    "concat bs = replicate 250 ''logo.png''"
    "length bs = (length (replicate 250 ''logo.png'') + 100 - 1) div 100"
    "\<forall>k < length bs. length (bs ! k) =
        (if Suc k < length bs then 100
         else if length (replicate 250 ''logo.png'') mod 100 = 0 then 100
         else length (replicate 250 ''logo.png'') mod 100)"
    by blast
  have l: "length bs = 3" using bs(3) by simp
  have "length (bs ! 0) = 100" "length (bs ! 1) = 100" "length (bs ! 2) = 50"
    using bs(4) l by simp_all
  then show ?thesis using bs(1,2) l by blast
qed

section \<open>Properties of a batch\<close>

lemma upload_batch_trace:
  "\<exists>ups. snd (upload_batch E b batch uris tr) = tr @ ups \<and>
         length ups \<le> length batch \<and>
         (\<forall>i < length ups. \<exists>t. ups ! i = GcsUpload b (batch ! i) (destination_blob (now E t) (batch ! i))) \<and>
         (\<forall>us. fst (upload_batch E b batch uris tr) = Inr us \<longrightarrow>
               us = uris @ map upload_uri ups \<and> length ups = length batch)"
proof (induction batch arbitrary: uris tr)
  case Nil
  then show ?case by simp
next
  case (Cons p batch)
  let ?ev = "GcsUpload b p (destination_blob (now E tr) p)"
  show ?case
  proof (cases "gcs_upload E (tr @ [?ev])")
    case (Some x)
    then have r: "upload_batch E b (p # batch) uris tr = (Inl (Raised x), tr @ [?ev])"
      by (simp add: upload_to_gcs_def)
    show ?thesis
      unfolding r by (intro exI[of _ "[?ev]"]) auto
  next
    case None
    let ?uris = "uris @ [upload_uri ?ev]"
    from None have step: "upload_batch E b (p # batch) uris tr = upload_batch E b batch ?uris (tr @ [?ev])"
      by (simp add: upload_to_gcs_def)
    from Cons[of ?uris "tr @ [?ev]"]
    obtain ups where ups: "snd (upload_batch E b batch ?uris (tr @ [?ev])) = (tr @ [?ev]) @ ups"
      "length ups \<le> length batch"
      "\<forall>i < length ups. \<exists>t. ups ! i = GcsUpload b (batch ! i) (destination_blob (now E t) (batch ! i))"
      "\<forall>us. fst (upload_batch E b batch ?uris (tr @ [?ev])) = Inr us \<longrightarrow>
               us = ?uris @ map upload_uri ups \<and> length ups = length batch"
      by blast
    have nth: "\<forall>i < length (?ev # ups). \<exists>t. (?ev # ups) ! i
                 = GcsUpload b ((p # batch) ! i) (destination_blob (now E t) ((p # batch) ! i))"
    proof (intro allI impI)
      fix i assume "i < length (?ev # ups)"
      then show "\<exists>t. (?ev # ups) ! i
                 = GcsUpload b ((p # batch) ! i) (destination_blob (now E t) ((p # batch) ! i))"
        using ups(3) by (cases i) auto
    qed
    show ?thesis
      unfolding step
      using ups(1,2,4) nth by (intro exI[of _ "?ev # ups"]) auto
  qed
qed

lemma create_asset_trace:
  "\<exists>k \<le> MAX_RETRIES. snd (create_asset E self corpus_id u tr) = tr @ registration_events self corpus_id u k"
proof -
  have "attempt_event self ''POST'' (asset_endpoint self corpus_id) (Some (asset_data u))
          = Some (register_event self corpus_id u)"
    by (rule create_asset_request)
  from make_request_shape[OF this, of 0 E tr]
  show ?thesis by (auto simp: create_asset_def registration_events_def)
qed

lemma register_batch_trace:
  "\<exists>ks. length ks \<le> length uris \<and>
        snd (register_batch E self corpus_id uris tr) =
          tr @ concat (map (\<lambda>(u, k). registration_events self corpus_id u k) (zip uris ks)) \<and>
        (fst (register_batch E self corpus_id uris tr) = Inr () \<longrightarrow> length ks = length uris)"
proof (induction uris arbitrary: tr)
  case Nil
  then show ?case by simp
next
  case (Cons u uris)
  obtain r t1 where c: "create_asset E self corpus_id u tr = (r, t1)" by (cases "create_asset E self corpus_id u tr")
  from create_asset_trace[of E self corpus_id u tr] c
  obtain k where k: "t1 = tr @ registration_events self corpus_id u k" by auto
  show ?case
  proof (cases r)
    case (Inl e)
    then have "register_batch E self corpus_id (u # uris) tr = (Inl e, t1)" using c by simp
    then show ?thesis using k by (intro exI[of _ "[k]"]) simp
  next
    case (Inr j)
    then have step: "register_batch E self corpus_id (u # uris) tr = register_batch E self corpus_id uris t1"
      using c by simp
    from Cons[of t1] obtain ks where ks: "length ks \<le> length uris"
      "snd (register_batch E self corpus_id uris t1) =
          t1 @ concat (map (\<lambda>(u, k). registration_events self corpus_id u k) (zip uris ks))"
      "fst (register_batch E self corpus_id uris t1) = Inr () \<longrightarrow> length ks = length uris"
      by blast
    show ?thesis
      unfolding step using ks k by (intro exI[of _ "k # ks"]) simp
  qed
qed


text \<open>
  Claim C4. The processing of one batch, whatever the outside world answers, leaves in
  the trace first the uploads, one per file and in the order of the batch (all of them,
  unless an upload raised), and after them the asset registrations, in the same order,
  each one an attempt (repeated on failure) whose URI is the URI that the upload of the
  file at the same position returned. A registration is issued only when every file of
  the batch has been uploaded, and when the batch succeeds every file has been
  registered.
\<close>

theorem upload_then_register:
  "\<exists>ups ks.
      snd (process_batch E self corpus_id bucket_name batch tr) =
        tr @ ups @ concat (map (\<lambda>(u, k). registration_events self corpus_id (upload_uri u) k) (zip ups ks))
    \<and> length ks \<le> length ups \<and> length ups \<le> length batch
    \<and> (\<forall>i < length ups. \<exists>t.
          ups ! i = GcsUpload bucket_name (batch ! i) (destination_blob (now E t) (batch ! i)))
    \<and> (ks \<noteq> [] \<longrightarrow> length ups = length batch)
    \<and> (fst (process_batch E self corpus_id bucket_name batch tr) = Inr () \<longrightarrow> length ks = length batch)"
proof -
  obtain r t1 where ub: "upload_batch E bucket_name batch [] tr = (r, t1)"
    by (cases "upload_batch E bucket_name batch [] tr")
  from upload_batch_trace[of E bucket_name batch "[]" tr] ub
  obtain ups where ups: "t1 = tr @ ups" "length ups \<le> length batch"
    "\<forall>i < length ups. \<exists>t. ups ! i = GcsUpload bucket_name (batch ! i) (destination_blob (now E t) (batch ! i))"
    "\<forall>us. r = Inr us \<longrightarrow> us = map upload_uri ups \<and> length ups = length batch"
    by auto
  show ?thesis
  proof (cases r)
    case (Inl e)
    then have "process_batch E self corpus_id bucket_name batch tr = (Inl e, t1)"
      using ub by (simp add: process_batch_def)
    then show ?thesis using ups(1,2,3)
      by (intro exI[of _ ups] exI[of _ "[]"]) simp
  next
    case (Inr uris)
    then have uris: "uris = map upload_uri ups" "length ups = length batch" using ups(4) by simp_all
    have pb: "process_batch E self corpus_id bucket_name batch tr = register_batch E self corpus_id uris t1"
      using ub Inr by (simp add: process_batch_def)
    from register_batch_trace[of uris E self corpus_id t1]
    obtain ks where ks: "length ks \<le> length uris"
      "snd (register_batch E self corpus_id uris t1) =
          t1 @ concat (map (\<lambda>(u, k). registration_events self corpus_id u k) (zip uris ks))"
      "fst (register_batch E self corpus_id uris t1) = Inr () \<longrightarrow> length ks = length uris"
      by blast
    have z: "map (\<lambda>(u, k). registration_events self corpus_id u k) (zip uris ks)
           = map (\<lambda>(u, k). registration_events self corpus_id (upload_uri u) k) (zip ups ks)"
      unfolding uris(1) by (simp add: zip_map1 case_prod_unfold)
    show ?thesis
      unfolding pb
      using ks ups(1,3) uris z
      by (intro exI[of _ ups] exI[of _ ks]) simp
  qed
qed


theorem upload_then_register_witness:
  "process_batch (scenario_env hiccup []) (new_analyzer ''token'') ''c1'' ''b'' [''x/a.png'', ''y/b.png''] []
     = (Inr (),
        [GcsUpload ''b'' ''x/a.png'' ''logos/20240307/a.png'',
         GcsUpload ''b'' ''y/b.png'' ''logos/20240307/b.png'',
         register_event (new_analyzer ''token'') ''c1'' ''gs://b/logos/20240307/a.png'',
         retry_warning 0,
         register_event (new_analyzer ''token'') ''c1'' ''gs://b/logos/20240307/a.png'',
         register_event (new_analyzer ''token'') ''c1'' ''gs://b/logos/20240307/b.png''])
   \<and> (\<exists>ups ks.
        [GcsUpload ''b'' ''x/a.png'' ''logos/20240307/a.png'',
         GcsUpload ''b'' ''y/b.png'' ''logos/20240307/b.png'',
         register_event (new_analyzer ''token'') ''c1'' ''gs://b/logos/20240307/a.png'',
         retry_warning 0,
         register_event (new_analyzer ''token'') ''c1'' ''gs://b/logos/20240307/a.png'',
         register_event (new_analyzer ''token'') ''c1'' ''gs://b/logos/20240307/b.png'']
        = ups @ concat (map (\<lambda>(u, k). registration_events (new_analyzer ''token'') ''c1'' (upload_uri u) k)
                         (zip ups ks))
        \<and> length ups = 2 \<and> length ks = 2)"
proof -
  let ?E = "scenario_env hiccup []"
  let ?an = "new_analyzer ''token''"
  let ?T = "[GcsUpload ''b'' ''x/a.png'' ''logos/20240307/a.png'',
         GcsUpload ''b'' ''y/b.png'' ''logos/20240307/b.png'',
         register_event ?an ''c1'' ''gs://b/logos/20240307/a.png'',
         retry_warning 0,
         register_event ?an ''c1'' ''gs://b/logos/20240307/a.png'',
         register_event ?an ''c1'' ''gs://b/logos/20240307/b.png'']"
  have run: "process_batch ?E ?an ''c1'' ''b'' [''x/a.png'', ''y/b.png''] [] = (Inr (), ?T)"
    by code_simp
  from upload_then_register[of ?E ?an "''c1''" "''b''" "[''x/a.png'', ''y/b.png'']" "[]"]
  obtain ups ks where
    "snd (process_batch ?E ?an ''c1'' ''b'' [''x/a.png'', ''y/b.png''] []) =
        [] @ ups @ concat (map (\<lambda>(u, k). registration_events ?an ''c1'' (upload_uri u) k) (zip ups ks))"
    "length ks \<le> length ups" "length ups \<le> length [''x/a.png'', ''y/b.png'']"
    "fst (process_batch ?E ?an ''c1'' ''b'' [''x/a.png'', ''y/b.png''] []) = Inr ()
       \<longrightarrow> length ks = length [''x/a.png'', ''y/b.png'']"
    by blast
  then have "?T = ups @ concat (map (\<lambda>(u, k). registration_events ?an ''c1'' (upload_uri u) k) (zip ups ks))"
    "length ups = 2" "length ks = 2"
    unfolding run by simp_all
  then show ?thesis using run by blast
qed

section \<open>Properties of the result sink\<close>











end
